theory Spec2Isabelle
  imports Main "HOL-Library.Word"
begin

section \<open>The board as the two programs see it\<close>

text \<open>
  Both programs are a \<^verbatim>\<open>main\<close> that talks to the board only through calls of the
  Pico SDK (\<^verbatim>\<open>gpio_put\<close>, \<^verbatim>\<open>sleep_ms\<close>, \<^verbatim>\<open>uart_is_readable\<close>, \<^verbatim>\<open>uart_getc\<close>,
  \<^verbatim>\<open>uart_putc\<close>). The SDK is not part of the repository, so its calls are modelled by
  their documented effect on an explicit hardware state:
  \<^item> the sender is a schedule \<open>arrivals\<close>: the bytes that reach the receive FIFO during
    the \<open>k\<close>-th time step (any number of them, also none: arbitrary delays and bursts);
  \<^item> time passes, one step per call, in \<^verbatim>\<open>sleep_ms\<close> and in \<^verbatim>\<open>uart_is_readable\<close>, the
    two calls between which the programs can observe an arrival;
  \<^item> the receive FIFO keeps every byte in order until it is read; the input stream of the
    model is the sequence of bytes the UART hands to the program, after whatever the
    line or a full hardware FIFO may have lost;
  \<^item> every call is appended to \<open>trace\<close>, so that what a program did, and in which
    order, can be read off afterwards.
\<close>

type_synonym byte = "8 word"

datatype gpio_function = GPIO_FUNC_UART

datatype event =
    Gpio_Init nat
  | Gpio_Set_Dir nat bool
  | Uart_Init nat
  | Gpio_Set_Function nat gpio_function
  | Gpio_Put nat bool
  | Sleep_Ms nat
  | Uart_Is_Readable bool
  | Uart_Getc byte
  | Uart_Putc byte
  | Ram_Store nat byte

record hw =
  arrivals :: "nat \<Rightarrow> byte list"
  clock :: nat
  rx_fifo :: "byte list"
  gpio_out :: "nat \<Rightarrow> bool"
  ram :: "nat \<Rightarrow> byte"
  trace :: "event list"

definition boot :: "(nat \<Rightarrow> byte list) \<Rightarrow> (nat \<Rightarrow> byte) \<Rightarrow> hw" where
  "boot arr ram0 =
     \<lparr>arrivals = arr, clock = 0, rx_fifo = [], gpio_out = (\<lambda>_. False), ram = ram0, trace = []\<rparr>"

definition log :: "event \<Rightarrow> hw \<Rightarrow> hw" where
  "log e w = w\<lparr>trace := trace w @ [e]\<rparr>"

definition tick :: "hw \<Rightarrow> hw" where
  "tick w = w\<lparr>rx_fifo := rx_fifo w @ arrivals w (clock w), clock := Suc (clock w)\<rparr>"

subsection \<open>The SDK calls\<close>

definition GPIO_OUT :: bool where
  "GPIO_OUT = True"

definition gpio_init :: "nat \<Rightarrow> hw \<Rightarrow> hw" where
  "gpio_init pin w = log (Gpio_Init pin) (w\<lparr>gpio_out := (gpio_out w)(pin := False)\<rparr>)"

definition gpio_set_dir :: "nat \<Rightarrow> bool \<Rightarrow> hw \<Rightarrow> hw" where
  "gpio_set_dir pin out w = log (Gpio_Set_Dir pin out) w"

definition uart_init :: "nat \<Rightarrow> hw \<Rightarrow> hw" where
  "uart_init baud w = log (Uart_Init baud) w"

definition gpio_set_function :: "nat \<Rightarrow> gpio_function \<Rightarrow> hw \<Rightarrow> hw" where
  "gpio_set_function pin fn w = log (Gpio_Set_Function pin fn) w"

definition gpio_put :: "nat \<Rightarrow> bool \<Rightarrow> hw \<Rightarrow> hw" where
  "gpio_put pin v w = log (Gpio_Put pin v) (w\<lparr>gpio_out := (gpio_out w)(pin := v)\<rparr>)"

definition sleep_ms :: "nat \<Rightarrow> hw \<Rightarrow> hw" where
  "sleep_ms ms w = log (Sleep_Ms ms) (tick w)"

definition uart_is_readable :: "hw \<Rightarrow> bool \<times> hw" where
  "uart_is_readable w =
     (let w' = tick w; r = (rx_fifo w' \<noteq> []) in (r, log (Uart_Is_Readable r) w'))"

text \<open>
  \<^verbatim>\<open>uart_getc\<close> blocks while the FIFO is empty. Both programs call it only after
  \<^verbatim>\<open>uart_is_readable\<close> has answered true; the blocking case is \<open>None\<close>.
\<close>

definition uart_getc :: "hw \<Rightarrow> (byte \<times> hw) option" where
  "uart_getc w =
     (case rx_fifo w of
        [] \<Rightarrow> None
      | b # bs \<Rightarrow> Some (b, log (Uart_Getc b) (w\<lparr>rx_fifo := bs\<rparr>)))"

definition uart_putc :: "byte \<Rightarrow> hw \<Rightarrow> hw" where
  "uart_putc c w = log (Uart_Putc c) w"

definition tight_loop_contents :: "hw \<Rightarrow> hw" where
  "tight_loop_contents w = w"

text \<open>A store through a \<^verbatim>\<open>uint8_t *\<close>: \<^verbatim>\<open>p[i] = b\<close> writes \<open>b\<close> at address \<open>p + i\<close>.\<close>

definition store :: "nat \<Rightarrow> byte \<Rightarrow> hw \<Rightarrow> hw" where
  "store addr b w = log (Ram_Store addr b) (w\<lparr>ram := (ram w)(addr := b)\<rparr>)"

section \<open>The programs\<close>

definition BAUD_RATE :: nat where
  "BAUD_RATE = 115200"

definition UART_RX_PIN :: nat where
  "UART_RX_PIN = 0"

definition LED_PIN :: nat where
  "LED_PIN = 25"

definition PROGRAM_SIZE :: nat where
  "PROGRAM_SIZE = 256"

definition RAM_LOAD_ADDRESS :: nat where
  "RAM_LOAD_ADDRESS = 0x20001000"

text \<open>
  Neither \<^verbatim>\<open>main\<close> returns: each ends in a \<^verbatim>\<open>while (1)\<close>, and the loader can also
  wait for a byte for ever. The unbounded loops therefore take fuel, one unit per
  iteration, and a program run with \<open>fuel\<close> units gives the hardware state at the
  moment the fuel is used up: a snapshot of the run, which goes on. A property of every
  moment of a run is a property of the snapshot for every amount of fuel.
\<close>

subsection \<open>stage1/uart\_test.c\<close>

function uart_test_ready :: "nat \<Rightarrow> hw \<Rightarrow> hw" where
  "uart_test_ready i w =
     (if i < 3 then
        uart_test_ready (Suc i)
          (sleep_ms 100 (gpio_put LED_PIN False (sleep_ms 100 (gpio_put LED_PIN True w))))
      else w)"
  by pat_completeness auto
termination
  by (relation "measure (\<lambda>(i, w). 3 - i)") auto

declare uart_test_ready.simps [simp del]

fun echo_loop :: "nat \<Rightarrow> bool \<Rightarrow> hw \<Rightarrow> bool \<times> hw" where
  "echo_loop 0 led_state w = (led_state, w)"
| "echo_loop (Suc fuel) led_state w =
     (case uart_is_readable w of
        (True, w1) \<Rightarrow>
          (case uart_getc w1 of
             None \<Rightarrow> (led_state, w1)
           | Some (byte, w2) \<Rightarrow>
               (let led_state' = (\<not> led_state);
                    w3 = gpio_put LED_PIN led_state' w2;
                    w4 = uart_putc byte w3
                in echo_loop fuel led_state' w4))
      | (False, w1) \<Rightarrow> echo_loop fuel led_state w1)"

definition uart_test_startup :: "hw \<Rightarrow> hw" where
  "uart_test_startup w0 =
     (let w1 = gpio_init LED_PIN w0;
          w2 = gpio_set_dir LED_PIN GPIO_OUT w1;
          w3 = uart_init BAUD_RATE w2;
          w4 = gpio_set_function UART_RX_PIN GPIO_FUNC_UART w3
      in uart_test_ready 0 w4)"

definition uart_test_main :: "nat \<Rightarrow> hw \<Rightarrow> bool \<times> hw" where
  "uart_test_main fuel w0 = echo_loop fuel False (uart_test_startup w0)"

subsection \<open>stage3/bootloader.c\<close>

function bootloader_ready :: "nat \<Rightarrow> hw \<Rightarrow> hw" where
  "bootloader_ready i w =
     (if i < 5 then
        bootloader_ready (Suc i)
          (sleep_ms 50 (gpio_put LED_PIN False (sleep_ms 50 (gpio_put LED_PIN True w))))
      else w)"
  by pat_completeness auto
termination
  by (relation "measure (\<lambda>(i, w). 5 - i)") auto

declare bootloader_ready.simps [simp del]

text \<open>
  The wait for a byte. \<open>Inl w\<close>: the fuel ran out at \<open>w\<close>, still waiting;
  \<open>Inr (fuel', w')\<close>: a byte is readable at \<open>w'\<close>, with \<open>fuel'\<close> left.
\<close>

fun wait_readable :: "nat \<Rightarrow> hw \<Rightarrow> hw + nat \<times> hw" where
  "wait_readable 0 w = Inl w"
| "wait_readable (Suc fuel) w =
     (case uart_is_readable w of
        (True, w') \<Rightarrow> Inr (fuel, w')
      | (False, w') \<Rightarrow> wait_readable fuel (tight_loop_contents w'))"

function receive_loop :: "nat \<Rightarrow> nat \<Rightarrow> hw \<Rightarrow> hw + nat \<times> hw" where
  "receive_loop i fuel w =
     (if i < PROGRAM_SIZE then
        (case wait_readable fuel w of
           Inl w' \<Rightarrow> Inl w'
         | Inr (fuel', w') \<Rightarrow>
             (case uart_getc w' of
                None \<Rightarrow> Inl w'
              | Some (b, w'') \<Rightarrow>
                  receive_loop (Suc i) fuel' (store (RAM_LOAD_ADDRESS + i) b w'')))
      else Inr (fuel, w))"
  by pat_completeness auto
termination
  by (relation "measure (\<lambda>(i, fuel, w). PROGRAM_SIZE - i)") auto

declare receive_loop.simps [simp del]

fun success_loop :: "nat \<Rightarrow> hw \<Rightarrow> hw" where
  "success_loop 0 w = w"
| "success_loop (Suc fuel) w =
     success_loop fuel
       (sleep_ms 500 (gpio_put LED_PIN False (sleep_ms 500 (gpio_put LED_PIN True w))))"

definition bootloader_startup :: "hw \<Rightarrow> hw" where
  "bootloader_startup w0 =
     (let w1 = gpio_init LED_PIN w0;
          w2 = gpio_set_dir LED_PIN GPIO_OUT w1;
          w3 = uart_init BAUD_RATE w2;
          w4 = gpio_set_function UART_RX_PIN GPIO_FUNC_UART w3;
          w5 = bootloader_ready 0 w4;
          w6 = sleep_ms 200 w5
      in gpio_put LED_PIN True w6)"

datatype phase = Receiving | Success

definition bootloader_main :: "nat \<Rightarrow> hw \<Rightarrow> phase \<times> hw" where
  "bootloader_main fuel w0 =
     (case receive_loop 0 fuel (bootloader_startup w0) of
        Inl w \<Rightarrow> (Receiving, w)
      | Inr (fuel', w) \<Rightarrow> (Success, success_loop fuel' w))"

section \<open>Observations of a run\<close>

text \<open>
  What a run did is read off its trace: the bytes it took from the receive FIFO, the
  bytes it wrote back to the UART, its stores into memory, and what it did to the LED
  (pin writes and sleeps, in order).
\<close>

fun getc_of :: "event \<Rightarrow> byte list" where
  "getc_of (Uart_Getc b) = [b]"
| "getc_of _ = []"

fun putc_of :: "event \<Rightarrow> byte list" where
  "putc_of (Uart_Putc b) = [b]"
| "putc_of _ = []"

fun store_of :: "event \<Rightarrow> (nat \<times> byte) list" where
  "store_of (Ram_Store a b) = [(a, b)]"
| "store_of _ = []"

fun led_event :: "event \<Rightarrow> bool" where
  "led_event (Gpio_Put pin v) = True"
| "led_event (Sleep_Ms ms) = True"
| "led_event _ = False"

definition consumed :: "hw \<Rightarrow> byte list" where
  "consumed w = concat (map getc_of (trace w))"

definition echoed :: "hw \<Rightarrow> byte list" where
  "echoed w = concat (map putc_of (trace w))"

definition stores :: "hw \<Rightarrow> (nat \<times> byte) list" where
  "stores w = concat (map store_of (trace w))"

definition waveform :: "hw \<Rightarrow> event list" where
  "waveform w = filter led_event (trace w)"

definition polls_true :: "hw \<Rightarrow> nat" where
  "polls_true w = length (filter (\<lambda>e. e = Uart_Is_Readable True) (trace w))"

text \<open>The destination buffer: the \<open>PROGRAM_SIZE\<close> bytes of memory from the load address.\<close>

definition buffer :: "hw \<Rightarrow> byte list" where
  "buffer w = map (ram w) [RAM_LOAD_ADDRESS ..< RAM_LOAD_ADDRESS + PROGRAM_SIZE]"

text \<open>One blink cycle with half-period \<open>ms\<close>, and the four initialisation calls.\<close>

definition blink :: "nat \<Rightarrow> event list" where
  "blink ms = [Gpio_Put LED_PIN True, Sleep_Ms ms, Gpio_Put LED_PIN False, Sleep_Ms ms]"

definition init_events :: "event list" where
  "init_events = [Gpio_Init LED_PIN, Gpio_Set_Dir LED_PIN GPIO_OUT, Uart_Init BAUD_RATE,
     Gpio_Set_Function UART_RX_PIN GPIO_FUNC_UART]"

text \<open>
  The LED writes of the diagnostic main loop after \<open>n\<close> bytes: alternating levels,
  the first one high.
\<close>

definition toggles :: "nat \<Rightarrow> event list" where
  "toggles n = map (\<lambda>k. Gpio_Put LED_PIN (even k)) [0..<n]"

subsection \<open>The input stream\<close>

text \<open>
  \<open>sent arr t\<close> is what the sender has delivered in the first \<open>t\<close> time steps; the
  stream is the limit of these prefixes. A schedule \<open>covers\<close> another when it delivers,
  sooner or later, everything the other delivers, in the same order. Two schedules that
  cover each other deliver the same stream and differ in timing only.
\<close>

definition sent :: "(nat \<Rightarrow> byte list) \<Rightarrow> nat \<Rightarrow> byte list" where
  "sent arr t = concat (map arr [0..<t])"

definition covers :: "(nat \<Rightarrow> byte list) \<Rightarrow> (nat \<Rightarrow> byte list) \<Rightarrow> bool" where
  "covers arr2 arr1 \<longleftrightarrow>
     (\<forall>t. \<exists>t'. sent arr1 t = take (length (sent arr1 t)) (sent arr2 t'))"

definition same_stream :: "(nat \<Rightarrow> byte list) \<Rightarrow> (nat \<Rightarrow> byte list) \<Rightarrow> bool" where
  "same_stream arr1 arr2 \<longleftrightarrow> covers arr2 arr1 \<and> covers arr1 arr2"

subsection \<open>Loop invariants\<close>

text \<open>
  \<open>data_inv arr ram0 i w\<close>: on schedule \<open>arr\<close> and initial memory \<open>ram0\<close>, the state
  \<open>w\<close> has consumed \<open>i\<close> bytes; consumed and queued bytes together are what has
  arrived; each consumed byte has been stored, in order, from the load address on, and
  nothing else in memory has changed; nothing has been written to the UART.
  \<open>led_inv w0 w\<close>: since \<open>w0\<close> the run has neither written a pin nor slept.
  \<open>echo_inv arr ws n led_state w\<close>: since the start-up state \<open>ws\<close> the diagnostic loop
  has consumed and echoed \<open>n\<close> bytes, found a byte available \<open>n\<close> times and written
  the LED \<open>n\<close> times.
\<close>

definition data_inv :: "(nat \<Rightarrow> byte list) \<Rightarrow> (nat \<Rightarrow> byte) \<Rightarrow> nat \<Rightarrow> hw \<Rightarrow> bool" where
  "data_inv arr ram0 i w \<longleftrightarrow>
     arrivals w = arr \<and>
     length (consumed w) = i \<and>
     consumed w @ rx_fifo w = sent arr (clock w) \<and>
     stores w = zip [RAM_LOAD_ADDRESS ..< RAM_LOAD_ADDRESS + i] (consumed w) \<and>
     (\<forall>a. ram w a =
        (if RAM_LOAD_ADDRESS \<le> a \<and> a < RAM_LOAD_ADDRESS + i
         then consumed w ! (a - RAM_LOAD_ADDRESS) else ram0 a)) \<and>
     echoed w = []"

definition led_inv :: "hw \<Rightarrow> hw \<Rightarrow> bool" where
  "led_inv w0 w \<longleftrightarrow>
     (\<exists>tr. trace w = trace w0 @ tr \<and> filter led_event tr = []) \<and> gpio_out w = gpio_out w0"

definition echo_inv :: "(nat \<Rightarrow> byte list) \<Rightarrow> hw \<Rightarrow> nat \<Rightarrow> bool \<Rightarrow> hw \<Rightarrow> bool" where
  "echo_inv arr ws n led_state w \<longleftrightarrow>
     arrivals w = arr \<and>
     length (consumed w) = n \<and>
     consumed w @ rx_fifo w = sent arr (clock w) \<and>
     echoed w = consumed w \<and>
     polls_true w = n \<and>
     (\<exists>tr. trace w = trace ws @ tr \<and> filter led_event tr = toggles n) \<and>
     led_state = odd n \<and>
     gpio_out w LED_PIN = odd n \<and>
     ram w = ram ws \<and>
     stores w = stores ws"

subsection \<open>Example schedules\<close>

text \<open>
  \<open>sched_burst\<close>: 300 bytes arrive in one burst during the third time step, while the
  programs are still in their ready blinks. \<open>sched_trickle\<close>: the same 300 bytes,
  one in each of the first 300 time steps. \<open>sched_short\<close>: three bytes arrive in the third time
  step and nothing ever after. \<open>sched_slow\<close>: the same three bytes, one every fifth
  step.
\<close>

definition sched_burst :: "nat \<Rightarrow> byte list" where
  "sched_burst k = (if k = 2 then map word_of_nat [0..<300] else [])"

definition sched_trickle :: "nat \<Rightarrow> byte list" where
  "sched_trickle k = (if k < 300 then [word_of_nat k] else [])"

definition sched_short :: "nat \<Rightarrow> byte list" where
  "sched_short k = (if k = 2 then [1, 2, 3] else [])"

definition sched_slow :: "nat \<Rightarrow> byte list" where
  "sched_slow k = (if k = 5 then [1] else if k = 10 then [2] else if k = 15 then [3] else [])"

definition zero_ram :: "nat \<Rightarrow> byte" where
  "zero_ram a = 0"

section \<open>Properties\<close>

subsection \<open>Streams and the ready blinks\<close>

lemmas sdk_defs = log_def tick_def gpio_init_def gpio_set_dir_def uart_init_def
  gpio_set_function_def gpio_put_def sleep_ms_def uart_is_readable_def uart_getc_def
  uart_putc_def tight_loop_contents_def store_def

lemma sent_0 [simp]: "sent arr 0 = []"
  by (simp add: sent_def)

lemma sent_Suc [simp]: "sent arr (Suc t) = sent arr t @ arr t"
  by (simp add: sent_def)

lemma sent_add: "sent arr (t + k) = sent arr t @ concat (map arr [t..<t + k])"
  by (induction k) simp_all

lemma sent_mono: "t \<le> t' \<Longrightarrow> length (sent arr t) \<le> length (sent arr t')"
  using sent_add [of arr t "t' - t"] by simp

lemma sent_take: "t \<le> t' \<Longrightarrow> take (length (sent arr t)) (sent arr t') = sent arr t"
  using sent_add [of arr t "t' - t"] by simp

lemma replicate_3: "replicate 3 x = [x, x, x]"
  by (simp add: eval_nat_numeral)

lemma replicate_5: "replicate 5 x = [x, x, x, x, x]"
  by (simp add: eval_nat_numeral)

lemma uart_test_ready_trace:
  "trace (uart_test_ready 0 w) = trace w @ concat (replicate 3 (blink 100))"
  by (simp add: uart_test_ready.simps sdk_defs blink_def replicate_3)

lemma uart_test_ready_fields:
  "arrivals (uart_test_ready 0 w) = arrivals w"
  "clock (uart_test_ready 0 w) = clock w + 6"
  "rx_fifo (uart_test_ready 0 w) = rx_fifo w @ concat (map (arrivals w) [clock w..<clock w + 6])"
  "ram (uart_test_ready 0 w) = ram w"
  "gpio_out (uart_test_ready 0 w) = (gpio_out w)(LED_PIN := False)"
  by (simp_all add: uart_test_ready.simps sdk_defs upt_rec)

lemma bootloader_ready_trace:
  "trace (bootloader_ready 0 w) = trace w @ concat (replicate 5 (blink 50))"
  by (simp add: bootloader_ready.simps sdk_defs blink_def replicate_5)

lemma bootloader_ready_fields:
  "arrivals (bootloader_ready 0 w) = arrivals w"
  "clock (bootloader_ready 0 w) = clock w + 10"
  "rx_fifo (bootloader_ready 0 w) = rx_fifo w @ concat (map (arrivals w) [clock w..<clock w + 10])"
  "ram (bootloader_ready 0 w) = ram w"
  "gpio_out (bootloader_ready 0 w) = (gpio_out w)(LED_PIN := False)"
  by (simp_all add: bootloader_ready.simps sdk_defs upt_rec)

subsection \<open>The receive loop keeps its invariants\<close>

lemmas obs_defs = consumed_def echoed_def stores_def waveform_def polls_true_def

lemma data_inv_gpio_put: "data_inv arr ram0 i w \<Longrightarrow> data_inv arr ram0 i (gpio_put pin v w)"
  by (simp add: data_inv_def sdk_defs obs_defs)

lemma data_inv_sleep_ms: "data_inv arr ram0 i w \<Longrightarrow> data_inv arr ram0 i (sleep_ms ms w)"
  by (simp add: data_inv_def sdk_defs obs_defs)

lemma data_inv_poll:
  "data_inv arr ram0 i w \<Longrightarrow> uart_is_readable w = (r, w') \<Longrightarrow> data_inv arr ram0 i w'"
  by (auto simp: data_inv_def sdk_defs obs_defs Let_def)

lemma data_inv_getc_store:
  assumes "data_inv arr ram0 i w" and "uart_getc w = Some (b, w')"
  shows "data_inv arr ram0 (Suc i) (store (RAM_LOAD_ADDRESS + i) b w')"
proof -
  from assms(2) obtain bs where fifo: "rx_fifo w = b # bs"
    and w': "w' = log (Uart_Getc b) (w\<lparr>rx_fifo := bs\<rparr>)"
    by (auto simp: uart_getc_def split: list.splits)
  let ?w = "store (RAM_LOAD_ADDRESS + i) b w'"
  have c: "consumed ?w = consumed w @ [b]"
    by (simp add: w' sdk_defs obs_defs)
  have len: "length (consumed w) = i"
    using assms(1) by (simp add: data_inv_def)
  have "stores ?w = stores w @ [(RAM_LOAD_ADDRESS + i, b)]"
    by (simp add: w' sdk_defs obs_defs)
  then have st: "stores ?w = zip [RAM_LOAD_ADDRESS ..< RAM_LOAD_ADDRESS + Suc i] (consumed ?w)"
    using assms(1) len by (simp add: data_inv_def c)
  have rm: "ram ?w a =
        (if RAM_LOAD_ADDRESS \<le> a \<and> a < RAM_LOAD_ADDRESS + Suc i
         then consumed ?w ! (a - RAM_LOAD_ADDRESS) else ram0 a)" for a
  proof -
    have "ram ?w a = (if a = RAM_LOAD_ADDRESS + i then b else ram w a)"
      by (simp add: w' sdk_defs)
    then show ?thesis
      using assms(1) len by (auto simp: data_inv_def c nth_append)
  qed
  have "arrivals ?w = arr" "clock ?w = clock w" "rx_fifo ?w = bs" "echoed ?w = []"
    using assms(1) by (simp_all add: w' sdk_defs obs_defs data_inv_def)
  then show ?thesis
    using assms(1) fifo st rm len unfolding data_inv_def c by simp
qed

lemma led_inv_refl: "led_inv w w"
  by (simp add: led_inv_def)

lemma led_inv_poll:
  assumes "led_inv w0 w" and "uart_is_readable w = (r, w')"
  shows "led_inv w0 w'"
proof -
  from assms(1) obtain tr where tr: "trace w = trace w0 @ tr" "filter led_event tr = []"
    and g: "gpio_out w = gpio_out w0"
    by (auto simp: led_inv_def)
  have "trace w' = trace w0 @ (tr @ [Uart_Is_Readable r])" "gpio_out w' = gpio_out w0"
    using assms(2) tr(1) g by (auto simp: sdk_defs Let_def)
  moreover have "filter led_event (tr @ [Uart_Is_Readable r]) = []"
    using tr(2) by simp
  ultimately show ?thesis
    unfolding led_inv_def by blast
qed

lemma led_inv_getc_store:
  assumes "led_inv w0 w" and "uart_getc w = Some (b, w')"
  shows "led_inv w0 (store a b w')"
proof -
  from assms(1) obtain tr where tr: "trace w = trace w0 @ tr" "filter led_event tr = []"
    and g: "gpio_out w = gpio_out w0"
    by (auto simp: led_inv_def)
  have "trace (store a b w') = trace w0 @ (tr @ [Uart_Getc b, Ram_Store a b])"
    "gpio_out (store a b w') = gpio_out w0"
    using assms(2) tr(1) g by (auto simp: sdk_defs split: list.splits)
  moreover have "filter led_event (tr @ [Uart_Getc b, Ram_Store a b]) = []"
    using tr(2) by simp
  ultimately show ?thesis
    unfolding led_inv_def by blast
qed

lemma readable_fifo: "uart_is_readable w = (True, w') \<Longrightarrow> rx_fifo w' \<noteq> []"
  by (auto simp: sdk_defs Let_def)

lemma unreadable_fifo: "uart_is_readable w = (False, w') \<Longrightarrow> rx_fifo w' = []"
  by (auto simp: sdk_defs Let_def)

lemma getc_nonempty: "rx_fifo w \<noteq> [] \<Longrightarrow> \<exists>b w'. uart_getc w = Some (b, w')"
  by (cases "rx_fifo w") (simp_all add: uart_getc_def)

lemma poll_clock: "uart_is_readable w = (r, w') \<Longrightarrow> clock w' = Suc (clock w)"
  by (auto simp: sdk_defs Let_def)

lemma wait_readable_inv:
  assumes "data_inv arr ram0 i w" and "led_inv w0 w"
  shows "case wait_readable fuel w of
           Inl w' \<Rightarrow> data_inv arr ram0 i w' \<and> led_inv w0 w'
         | Inr (fuel', w') \<Rightarrow> data_inv arr ram0 i w' \<and> led_inv w0 w' \<and> rx_fifo w' \<noteq> []"
  using assms
proof (induction fuel arbitrary: w)
  case 0
  then show ?case by simp
next
  case (Suc fuel)
  obtain r w1 where p: "uart_is_readable w = (r, w1)"
    by (cases "uart_is_readable w")
  have 1: "data_inv arr ram0 i w1" "led_inv w0 w1"
    using Suc.prems p by (blast intro: data_inv_poll led_inv_poll)+
  show ?case
  proof (cases r)
    case True
    then show ?thesis using p 1 readable_fifo by simp
  next
    case False
    then show ?thesis using p Suc.IH [OF 1] by (simp add: tight_loop_contents_def)
  qed
qed

lemma receive_loop_inv:
  assumes "data_inv arr ram0 i w" and "led_inv w0 w" and "i \<le> PROGRAM_SIZE"
  shows "case receive_loop i fuel w of
           Inl w' \<Rightarrow> \<exists>j<PROGRAM_SIZE. data_inv arr ram0 j w' \<and> led_inv w0 w'
         | Inr (fuel', w') \<Rightarrow> data_inv arr ram0 PROGRAM_SIZE w' \<and> led_inv w0 w'"
  using assms
proof (induction i fuel w rule: receive_loop.induct)
  case (1 i fuel w)
  show ?case
  proof (cases "i < PROGRAM_SIZE")
    case False
    with "1.prems" show ?thesis by (simp add: receive_loop.simps)
  next
    case True
    note W = wait_readable_inv [OF "1.prems"(1,2), of fuel]
    show ?thesis
    proof (cases "wait_readable fuel w")
      case (Inl w')
      with W True show ?thesis by (auto simp: receive_loop.simps)
    next
      case (Inr p)
      obtain fuel' w' where p: "p = (fuel', w')" by (cases p)
      from W Inr p have 2: "data_inv arr ram0 i w'" "led_inv w0 w'" "rx_fifo w' \<noteq> []"
        by simp_all
      from getc_nonempty [OF 2(3)] obtain b w'' where g: "uart_getc w' = Some (b, w'')"
        by blast
      have "case receive_loop (Suc i) fuel' (store (RAM_LOAD_ADDRESS + i) b w'') of
           Inl w' \<Rightarrow> \<exists>j<PROGRAM_SIZE. data_inv arr ram0 j w' \<and> led_inv w0 w'
         | Inr (fuel', w') \<Rightarrow> data_inv arr ram0 PROGRAM_SIZE w' \<and> led_inv w0 w'"
        using True Inr p g
        by (intro "1.IH" data_inv_getc_store [OF 2(1)] led_inv_getc_store [OF 2(2)]) auto
      then show ?thesis
        using True Inr p g by (subst receive_loop.simps) simp
    qed
  qed
qed

subsection \<open>Start-up, the success loop, and fuel\<close>

lemma data_inv_boot: "data_inv arr ram0 0 (boot arr ram0)"
  by (auto simp: data_inv_def boot_def obs_defs)

lemma data_inv_init:
  "data_inv arr ram0 i w \<Longrightarrow> data_inv arr ram0 i (gpio_init pin w)"
  "data_inv arr ram0 i w \<Longrightarrow> data_inv arr ram0 i (gpio_set_dir pin out w)"
  "data_inv arr ram0 i w \<Longrightarrow> data_inv arr ram0 i (uart_init baud w)"
  "data_inv arr ram0 i w \<Longrightarrow> data_inv arr ram0 i (gpio_set_function pin fn w)"
  by (simp_all add: data_inv_def sdk_defs obs_defs)

lemma data_inv_bootloader_ready:
  "data_inv arr ram0 i w \<Longrightarrow> data_inv arr ram0 i (bootloader_ready 0 w)"
  by (simp add: bootloader_ready.simps data_inv_gpio_put data_inv_sleep_ms)

lemma data_inv_uart_test_ready:
  "data_inv arr ram0 i w \<Longrightarrow> data_inv arr ram0 i (uart_test_ready 0 w)"
  by (simp add: uart_test_ready.simps data_inv_gpio_put data_inv_sleep_ms)

lemma data_inv_bootloader_startup:
  "data_inv arr ram0 0 (bootloader_startup (boot arr ram0))"
  unfolding bootloader_startup_def Let_def
  by (intro data_inv_gpio_put data_inv_sleep_ms data_inv_bootloader_ready data_inv_init
      data_inv_boot)

lemma data_inv_uart_test_startup:
  "data_inv arr ram0 0 (uart_test_startup (boot arr ram0))"
  unfolding uart_test_startup_def Let_def
  by (intro data_inv_uart_test_ready data_inv_init data_inv_boot)

lemma bootloader_startup_trace:
  "trace (bootloader_startup (boot arr ram0)) =
     init_events @ concat (replicate 5 (blink 50)) @ [Sleep_Ms 200, Gpio_Put LED_PIN True]"
  by (simp add: bootloader_startup_def Let_def bootloader_ready_trace init_events_def
      sdk_defs boot_def)

lemma bootloader_startup_fields:
  "clock (bootloader_startup (boot arr ram0)) = 11"
  "gpio_out (bootloader_startup (boot arr ram0)) LED_PIN = True"
  by (simp_all add: bootloader_startup_def Let_def bootloader_ready_fields sdk_defs boot_def)

lemma uart_test_startup_trace:
  "trace (uart_test_startup (boot arr ram0)) = init_events @ concat (replicate 3 (blink 100))"
  by (simp add: uart_test_startup_def Let_def uart_test_ready_trace init_events_def
      sdk_defs boot_def)

lemma uart_test_startup_fields:
  "clock (uart_test_startup (boot arr ram0)) = 6"
  "gpio_out (uart_test_startup (boot arr ram0)) LED_PIN = False"
  by (simp_all add: uart_test_startup_def Let_def uart_test_ready_fields sdk_defs boot_def)

lemma success_loop_trace:
  "trace (success_loop k w) = trace w @ concat (replicate k (blink 500))"
  by (induction k arbitrary: w) (simp_all add: sdk_defs blink_def)

lemma success_loop_data_inv:
  "data_inv arr ram0 i w \<Longrightarrow> data_inv arr ram0 i (success_loop k w)"
  by (induction k arbitrary: w) (simp_all add: data_inv_gpio_put data_inv_sleep_ms)

lemma success_loop_add: "success_loop (a + b) w = success_loop b (success_loop a w)"
  by (induction a arbitrary: w) simp_all

lemma wait_readable_more:
  "wait_readable fuel w = Inr (fuel', w') \<Longrightarrow> wait_readable (fuel + k) w = Inr (fuel' + k, w')"
proof (induction fuel arbitrary: w)
  case 0
  then show ?case by simp
next
  case (Suc fuel)
  obtain r w1 where p: "uart_is_readable w = (r, w1)"
    by (cases "uart_is_readable w")
  show ?case
    using Suc.prems Suc.IH [of w1] p by (cases r) (simp_all add: tight_loop_contents_def)
qed

lemma receive_loop_more:
  "receive_loop i fuel w = Inr (fuel', w') \<Longrightarrow>
   receive_loop i (fuel + k) w = Inr (fuel' + k, w')"
proof (induction i fuel w rule: receive_loop.induct)
  case (1 i fuel w)
  show ?case
  proof (cases "i < PROGRAM_SIZE")
    case False
    with "1.prems" show ?thesis by (simp add: receive_loop.simps)
  next
    case True
    from "1.prems" True obtain f1 w1 b w2 where
      a: "wait_readable fuel w = Inr (f1, w1)" and g: "uart_getc w1 = Some (b, w2)"
      and r: "receive_loop (Suc i) f1 (store (RAM_LOAD_ADDRESS + i) b w2) = Inr (fuel', w')"
      by (subst (asm) receive_loop.simps) (auto split: sum.splits option.splits)
    have "receive_loop (Suc i) (f1 + k) (store (RAM_LOAD_ADDRESS + i) b w2) = Inr (fuel' + k, w')"
      using True a g r by (intro "1.IH") auto
    then show ?thesis
      using True wait_readable_more [OF a, of k] g by (subst receive_loop.simps) simp
  qed
qed

lemma getc_clock: "uart_getc w = Some (b, w') \<Longrightarrow> clock (store a b w') = clock w"
  by (auto simp: sdk_defs split: list.splits)

text \<open>
  Progress: while fewer bytes have been consumed than the stream supplies by time \<open>T\<close>,
  the wait ends after at most \<open>T - clock w\<close> polls, or after one.
\<close>

lemma wait_readable_progress:
  assumes "data_inv arr ram0 i w" and "i < length (sent arr T)"
    and "(T - clock w) + m + 1 \<le> fuel"
  shows "\<exists>fuel' w'. wait_readable fuel w = Inr (fuel', w') \<and> (T - clock w') + m \<le> fuel'"
  using assms
proof (induction fuel arbitrary: w)
  case 0
  then show ?case by simp
next
  case (Suc fuel)
  obtain r w1 where p: "uart_is_readable w = (r, w1)"
    by (cases "uart_is_readable w")
  have inv1: "data_inv arr ram0 i w1"
    using Suc.prems(1) p by (rule data_inv_poll)
  have c1: "clock w1 = Suc (clock w)"
    using p by (rule poll_clock)
  show ?case
  proof (cases r)
    case True
    then show ?thesis using p c1 Suc.prems(3) by simp
  next
    case False
    with p have "rx_fifo w1 = []" by (simp add: unreadable_fifo)
    with inv1 have "length (sent arr (clock w1)) = i"
      by (auto simp: data_inv_def)
    with Suc.prems(2) have "clock w1 < T"
      using sent_mono [of T "clock w1" arr] by (cases "clock w1 < T") auto
    with c1 Suc.prems(3) have "(T - clock w1) + m + 1 \<le> fuel" by simp
    from Suc.IH [OF inv1 Suc.prems(2) this] show ?thesis
      using p False by (simp add: tight_loop_contents_def)
  qed
qed

lemma receive_loop_progress:
  assumes "data_inv arr ram0 i w" and "i \<le> PROGRAM_SIZE"
    and "PROGRAM_SIZE \<le> length (sent arr T)"
    and "(T - clock w) + (PROGRAM_SIZE - i) \<le> fuel"
  shows "\<exists>fuel' w'. receive_loop i fuel w = Inr (fuel', w')"
  using assms
proof (induction i fuel w rule: receive_loop.induct)
  case (1 i fuel w)
  show ?case
  proof (cases "i < PROGRAM_SIZE")
    case False
    then show ?thesis by (simp add: receive_loop.simps)
  next
    case True
    have "(T - clock w) + (PROGRAM_SIZE - Suc i) + 1 \<le> fuel"
      using "1.prems"(4) True by simp
    from wait_readable_progress [OF "1.prems"(1) _ this] True "1.prems"(3)
    obtain f1 w1 where a: "wait_readable fuel w = Inr (f1, w1)"
      and f1: "(T - clock w1) + (PROGRAM_SIZE - Suc i) \<le> f1"
      by auto
    from wait_readable_inv [OF "1.prems"(1) led_inv_refl, of fuel] a
    have inv1: "data_inv arr ram0 i w1" and ne: "rx_fifo w1 \<noteq> []"
      by simp_all
    from getc_nonempty [OF ne] obtain b w2 where g: "uart_getc w1 = Some (b, w2)"
      by blast
    let ?w = "store (RAM_LOAD_ADDRESS + i) b w2"
    have "\<exists>fuel' w'. receive_loop (Suc i) f1 ?w = Inr (fuel', w')"
    proof (rule "1.IH" [OF True a refl g refl])
      show "data_inv arr ram0 (Suc i) ?w"
        using inv1 g by (rule data_inv_getc_store)
      show "Suc i \<le> PROGRAM_SIZE" using True by simp
      show "PROGRAM_SIZE \<le> length (sent arr T)" by fact
      show "T - clock ?w + (PROGRAM_SIZE - Suc i) \<le> f1"
        using f1 getc_clock [OF g] by simp
    qed
    then show ?thesis
      using True a g by (subst receive_loop.simps) simp
  qed
qed

subsection \<open>The loader\<close>

lemma blinks_led [simp]:
  "filter led_event (concat (replicate k (blink ms))) = concat (replicate k (blink ms))"
  by (induction k) (simp_all add: blink_def)

lemma blinks_getc [simp]: "concat (map getc_of (concat (replicate k (blink ms)))) = []"
  by (induction k) (simp_all add: blink_def)

lemma init_events_led [simp]: "filter led_event init_events = []"
  by (simp add: init_events_def)

lemma init_events_getc [simp]: "concat (map getc_of init_events) = []"
  by (simp add: init_events_def)

lemma sent_take_eq:
  assumes "n \<le> length (sent arr t)" and "n \<le> length (sent arr t')"
  shows "take n (sent arr t) = take n (sent arr t')"
proof -
  have *: "take n (sent arr a) = take n (sent arr b)"
    if "a \<le> b" and "n \<le> length (sent arr a)" for a b
  proof -
    from that(1) have "sent arr b = sent arr a @ concat (map arr [a..<a + (b - a)])"
      using sent_add [of arr a "b - a"] by simp
    with that(2) show ?thesis by simp
  qed
  show ?thesis
  proof (cases "t \<le> t'")
    case True
    with assms * show ?thesis by blast
  next
    case False
    then have "t' \<le> t" by simp
    with assms * [of t' t] show ?thesis by simp
  qed
qed

lemma data_inv_consumed:
  assumes "data_inv arr ram0 i w"
  shows "consumed w = take i (sent arr (clock w))" and "rx_fifo w = drop i (sent arr (clock w))"
    and "i \<le> length (sent arr (clock w))"
proof -
  from assms have "consumed w @ rx_fifo w = sent arr (clock w)" and "length (consumed w) = i"
    by (simp_all add: data_inv_def)
  then show "consumed w = take i (sent arr (clock w))" "rx_fifo w = drop i (sent arr (clock w))"
    "i \<le> length (sent arr (clock w))"
    by (metis append_eq_conv_conj, metis append_eq_conv_conj, metis le_add1 length_append)
qed

lemma data_inv_stores:
  assumes "data_inv arr ram0 i w"
  shows "map snd (stores w) = consumed w"
    and "map fst (stores w) = [RAM_LOAD_ADDRESS ..< RAM_LOAD_ADDRESS + length (consumed w)]"
    and "length (stores w) = i" and "length (consumed w) = i"
  using assms by (simp_all add: data_inv_def)

lemma data_inv_ram:
  assumes "data_inv arr ram0 i w" and "n < i"
  shows "ram w (RAM_LOAD_ADDRESS + n) = consumed w ! n"
  using assms by (simp add: data_inv_def)

lemma data_inv_buffer:
  assumes "data_inv arr ram0 PROGRAM_SIZE w"
  shows "buffer w = consumed w"
proof (rule nth_equalityI)
  show "length (buffer w) = length (consumed w)"
    using assms by (simp add: buffer_def data_inv_def)
next
  fix n assume "n < length (buffer w)"
  then have "n < PROGRAM_SIZE" by (simp add: buffer_def)
  then show "buffer w ! n = consumed w ! n"
    using data_inv_ram [OF assms] by (simp add: buffer_def)
qed

lemma bootloader_main_snapshot:
  assumes "bootloader_main fuel (boot arr ram0) = (p, w)"
  shows "\<exists>j tr k. data_inv arr ram0 j w \<and>
           trace w = trace (bootloader_startup (boot arr ram0)) @ tr @
             concat (replicate k (blink 500)) \<and>
           filter led_event tr = [] \<and>
           (p = Receiving \<longrightarrow> j < PROGRAM_SIZE \<and> k = 0 \<and> gpio_out w LED_PIN = True) \<and>
           (p = Success \<longrightarrow> j = PROGRAM_SIZE)"
proof -
  let ?ws = "bootloader_startup (boot arr ram0)"
  note R = receive_loop_inv [OF data_inv_bootloader_startup led_inv_refl, of arr ram0 fuel]
  show ?thesis
  proof (cases "receive_loop 0 fuel ?ws")
    case (Inl w')
    with assms have pw: "p = Receiving" "w = w'"
      by (simp_all add: bootloader_main_def)
    from R Inl obtain j where j: "j < PROGRAM_SIZE" "data_inv arr ram0 j w'" "led_inv ?ws w'"
      by auto
    from j(3) obtain tr where "trace w' = trace ?ws @ tr" "filter led_event tr = []"
      and "gpio_out w' = gpio_out ?ws"
      by (auto simp: led_inv_def)
    then have "trace w = trace ?ws @ tr @ concat (replicate 0 (blink 500))"
      "filter led_event tr = []" "gpio_out w LED_PIN = True"
      using pw by (simp_all add: bootloader_startup_fields)
    with j pw show ?thesis by blast
  next
    case (Inr q)
    obtain fuel' w' where q: "q = (fuel', w')" by (cases q)
    with assms Inr have pw: "p = Success" "w = success_loop fuel' w'"
      by (simp_all add: bootloader_main_def)
    from R Inr q have j: "data_inv arr ram0 PROGRAM_SIZE w'" "led_inv ?ws w'"
      by auto
    from j(2) obtain tr where "trace w' = trace ?ws @ tr" "filter led_event tr = []"
      by (auto simp: led_inv_def)
    then have "trace w = trace ?ws @ tr @ concat (replicate fuel' (blink 500))"
      "filter led_event tr = []"
      using pw by (simp_all add: success_loop_trace)
    moreover have "data_inv arr ram0 PROGRAM_SIZE w"
      using j(1) pw by (simp add: success_loop_data_inv)
    ultimately show ?thesis using pw by blast
  qed
qed

lemma bootloader_main_success:
  assumes "PROGRAM_SIZE \<le> length (sent arr T)" and "T + PROGRAM_SIZE \<le> fuel"
  shows "\<exists>w. bootloader_main fuel (boot arr ram0) = (Success, w)"
proof -
  have "\<exists>fuel' w'. receive_loop 0 fuel (bootloader_startup (boot arr ram0)) = Inr (fuel', w')"
  proof (rule receive_loop_progress [where T = T])
    show "data_inv arr ram0 0 (bootloader_startup (boot arr ram0))"
      by (rule data_inv_bootloader_startup)
    show "T - clock (bootloader_startup (boot arr ram0)) + (PROGRAM_SIZE - 0) \<le> fuel"
      using assms(2) by simp
  qed (use assms(1) in simp_all)
  then show ?thesis
    by (auto simp: bootloader_main_def)
qed

lemma bootloader_main_more:
  assumes "bootloader_main fuel w0 = (Success, w)"
  shows "bootloader_main (fuel + k) w0 = (Success, success_loop k w)"
proof -
  from assms obtain fuel' w' where
    r: "receive_loop 0 fuel (bootloader_startup w0) = Inr (fuel', w')"
    and w: "w = success_loop fuel' w'"
    by (auto simp: bootloader_main_def split: sum.splits)
  show ?thesis
    using receive_loop_more [OF r, of k] w
    by (simp add: bootloader_main_def success_loop_add)
qed

lemma blinks_store [simp]: "concat (map store_of (concat (replicate k (blink ms)))) = []"
  by (induction k) (simp_all add: blink_def)

lemma blinks_putc [simp]: "concat (map putc_of (concat (replicate k (blink ms)))) = []"
  by (induction k) (simp_all add: blink_def)

lemma success_loop_ram [simp]: "ram (success_loop k w) = ram w"
  by (induction k arbitrary: w) (simp_all add: sdk_defs)

lemma success_loop_consumed [simp]: "consumed (success_loop k w) = consumed w"
  by (simp add: consumed_def success_loop_trace)

lemma success_loop_stores [simp]: "stores (success_loop k w) = stores w"
  by (simp add: stores_def success_loop_trace)

lemma snapshot_waveform:
  assumes "trace w = trace (bootloader_startup (boot arr ram0)) @ tr @
             concat (replicate k (blink 500))"
    and "filter led_event tr = []"
  shows "waveform w = concat (replicate 5 (blink 50)) @ [Sleep_Ms 200, Gpio_Put LED_PIN True] @
           concat (replicate k (blink 500))"
  using assms by (simp add: waveform_def bootloader_startup_trace)

lemma snapshot_consumed:
  assumes "trace w = trace (bootloader_startup (boot arr ram0)) @ tr @
             concat (replicate k (blink 500))"
  shows "concat (map getc_of tr) = consumed w"
  using assms by (simp add: consumed_def bootloader_startup_trace)

lemma short_stream_receiving:
  assumes "\<forall>t. length (sent arr t) < PROGRAM_SIZE"
  shows "fst (bootloader_main fuel (boot arr ram0)) = Receiving"
proof (rule ccontr)
  assume "fst (bootloader_main fuel (boot arr ram0)) \<noteq> Receiving"
  then obtain w where "bootloader_main fuel (boot arr ram0) = (Success, w)"
    by (cases "bootloader_main fuel (boot arr ram0)") (auto intro: phase.exhaust)
  from bootloader_main_snapshot [OF this] have "data_inv arr ram0 PROGRAM_SIZE w"
    by auto
  from data_inv_consumed(3) [OF this] assms show False
    by (simp add: not_le [symmetric])
qed

lemma sent_sched_burst: "sent sched_burst 3 = map word_of_nat [0..<300]"
  by (simp add: numeral_3_eq_3 sched_burst_def)

lemma sent_sched_short: "sent sched_short t = (if t \<le> 2 then [] else [1, 2, 3])"
  by (induction t) (auto simp: sched_short_def)

lemma sched_short_small: "\<forall>t. length (sent sched_short t) < PROGRAM_SIZE"
  by (simp add: sent_sched_short PROGRAM_SIZE_def)

text \<open>
  C1. Loader: when the stream supplies at least 256 bytes (by some time \<open>T\<close>), a run
  with fuel \<open>T + 256\<close> or more has left the receive loop and is in the success loop; the
  buffer holds the first 256 bytes of the stream, the \<open>N\<close>-th byte at index \<open>N - 1\<close>
  for every \<open>N\<close> from 1 to 256; and the LED shows, after the ready blinks and the
  steady light, the slow blink: with \<open>j\<close> more units of fuel at least \<open>j\<close> cycles of
  on, 500 ms, off, 500 ms, so the blinking goes on without bound.
\<close>

theorem loader_buffer_is_first_256_bytes:
  assumes "PROGRAM_SIZE \<le> length (sent arr T)" and "T + PROGRAM_SIZE \<le> fuel"
  shows "\<exists>w k. bootloader_main (fuel + j) (boot arr ram0) = (Success, w) \<and>
           buffer w = take PROGRAM_SIZE (sent arr T) \<and>
           (\<forall>N. 1 \<le> N \<and> N \<le> PROGRAM_SIZE \<longrightarrow>
              buffer w ! (N - 1) = sent arr T ! (N - 1) \<and>
              ram w (RAM_LOAD_ADDRESS + (N - 1)) = sent arr T ! (N - 1)) \<and>
           waveform w = concat (replicate 5 (blink 50)) @
             [Sleep_Ms 200, Gpio_Put LED_PIN True] @
             concat (replicate k
               [Gpio_Put LED_PIN True, Sleep_Ms 500, Gpio_Put LED_PIN False, Sleep_Ms 500]) \<and>
           j \<le> k"
proof -
  from bootloader_main_success [OF assms] obtain w0
    where run0: "bootloader_main fuel (boot arr ram0) = (Success, w0)" by blast
  define w where "w = success_loop j w0"
  have run: "bootloader_main (fuel + j) (boot arr ram0) = (Success, w)"
    unfolding w_def using run0 by (rule bootloader_main_more)
  from bootloader_main_snapshot [OF run0] obtain tr k0
    where inv0: "data_inv arr ram0 PROGRAM_SIZE w0"
      and tr0: "trace w0 = trace (bootloader_startup (boot arr ram0)) @ tr @
             concat (replicate k0 (blink 500))" "filter led_event tr = []"
    by auto
  have inv: "data_inv arr ram0 PROGRAM_SIZE w"
    unfolding w_def using inv0 by (rule success_loop_data_inv)
  have "trace w = trace (bootloader_startup (boot arr ram0)) @ tr @
          concat (replicate (k0 + j) (blink 500))"
    by (simp add: w_def success_loop_trace tr0(1) replicate_add)
  from snapshot_waveform [OF this tr0(2)]
  have wave: "waveform w = concat (replicate 5 (blink 50)) @
             [Sleep_Ms 200, Gpio_Put LED_PIN True] @
             concat (replicate (k0 + j)
               [Gpio_Put LED_PIN True, Sleep_Ms 500, Gpio_Put LED_PIN False, Sleep_Ms 500])"
    by (simp add: blink_def)
  have c: "consumed w = take PROGRAM_SIZE (sent arr T)"
    using data_inv_consumed(1,3) [OF inv] assms(1) sent_take_eq by metis
  have b: "buffer w = take PROGRAM_SIZE (sent arr T)"
    using data_inv_buffer [OF inv] c by simp
  have n: "buffer w ! (N - 1) = sent arr T ! (N - 1) \<and>
      ram w (RAM_LOAD_ADDRESS + (N - 1)) = sent arr T ! (N - 1)"
    if "1 \<le> N \<and> N \<le> PROGRAM_SIZE" for N
  proof -
    from that have "N - 1 < PROGRAM_SIZE" by arith
    then show ?thesis
      using data_inv_ram [OF inv, of "N - 1"] b c by simp
  qed
  have "j \<le> k0 + j" by simp
  with run b n wave show ?thesis by blast
qed

theorem loader_buffer_is_first_256_bytes_witness:
  "PROGRAM_SIZE \<le> length (sent sched_burst 3) \<and> 3 + PROGRAM_SIZE \<le> 300 \<and>
   (\<exists>w k. bootloader_main (300 + 4) (boot sched_burst zero_ram) = (Success, w) \<and>
      buffer w = take PROGRAM_SIZE (sent sched_burst 3) \<and>
      buffer w ! (256 - 1) = sent sched_burst 3 ! (256 - 1) \<and>
      ram w (RAM_LOAD_ADDRESS + (1 - 1)) = sent sched_burst 3 ! (1 - 1) \<and>
      waveform w = concat (replicate 5 (blink 50)) @
        [Sleep_Ms 200, Gpio_Put LED_PIN True] @
        concat (replicate k
          [Gpio_Put LED_PIN True, Sleep_Ms 500, Gpio_Put LED_PIN False, Sleep_Ms 500]) \<and>
      4 \<le> k)"
proof -
  have h1: "PROGRAM_SIZE \<le> length (sent sched_burst 3)"
    by (simp add: sent_sched_burst PROGRAM_SIZE_def)
  have h2: "3 + PROGRAM_SIZE \<le> (300::nat)"
    by (simp add: PROGRAM_SIZE_def)
  from loader_buffer_is_first_256_bytes [OF h1 h2, of 4 zero_ram] obtain w k where
    "bootloader_main (300 + 4) (boot sched_burst zero_ram) = (Success, w)"
    "buffer w = take PROGRAM_SIZE (sent sched_burst 3)"
    "\<forall>N. 1 \<le> N \<and> N \<le> PROGRAM_SIZE \<longrightarrow>
              buffer w ! (N - 1) = sent sched_burst 3 ! (N - 1) \<and>
              ram w (RAM_LOAD_ADDRESS + (N - 1)) = sent sched_burst 3 ! (N - 1)"
    "waveform w = concat (replicate 5 (blink 50)) @
        [Sleep_Ms 200, Gpio_Put LED_PIN True] @
        concat (replicate k
          [Gpio_Put LED_PIN True, Sleep_Ms 500, Gpio_Put LED_PIN False, Sleep_Ms 500])"
    "4 \<le> k"
    by blast
  moreover from this(3) [rule_format, of 256] this(3) [rule_format, of 1]
  have "buffer w ! (256 - 1) = sent sched_burst 3 ! (256 - 1)"
    "ram w (RAM_LOAD_ADDRESS + (1 - 1)) = sent sched_burst 3 ! (1 - 1)"
    by (simp_all add: PROGRAM_SIZE_def)
  ultimately show ?thesis using h1 h2 by blast
qed

text \<open>
  C3. Loader: when the stream supplies fewer than 256 bytes in total, the run is in the
  receive loop whatever the fuel: it never reaches the slow blink. The bytes consumed
  so far are the bytes that have arrived, fewer than 256, and the LED still shows what
  it showed when the loop was entered.
\<close>

theorem loader_blocks_on_short_stream:
  assumes "\<forall>t. length (sent arr t) < PROGRAM_SIZE"
  shows "\<exists>w. bootloader_main fuel (boot arr ram0) = (Receiving, w) \<and>
           length (consumed w) < PROGRAM_SIZE \<and>
           consumed w = take (length (consumed w)) (sent arr (clock w)) \<and>
           waveform w = concat (replicate 5 (blink 50)) @ [Sleep_Ms 200, Gpio_Put LED_PIN True]"
proof -
  obtain w where run: "bootloader_main fuel (boot arr ram0) = (Receiving, w)"
    using short_stream_receiving [OF assms, of fuel ram0]
    by (cases "bootloader_main fuel (boot arr ram0)") auto
  from bootloader_main_snapshot [OF run] obtain j tr
    where inv: "data_inv arr ram0 j w" and j: "j < PROGRAM_SIZE"
      and tr: "trace w = trace (bootloader_startup (boot arr ram0)) @ tr @
             concat (replicate 0 (blink 500))" "filter led_event tr = []"
    by auto
  have "length (consumed w) = j"
    using inv by (simp add: data_inv_def)
  with run j data_inv_consumed(1) [OF inv] snapshot_waveform [OF tr] show ?thesis
    by simp
qed

theorem loader_blocks_on_short_stream_witness:
  "(\<forall>t. length (sent sched_short t) < PROGRAM_SIZE) \<and>
   (\<exists>w. bootloader_main 1000 (boot sched_short zero_ram) = (Receiving, w) \<and>
      length (consumed w) < PROGRAM_SIZE \<and>
      consumed w = take (length (consumed w)) (sent sched_short (clock w)) \<and>
      waveform w = concat (replicate 5 (blink 50)) @ [Sleep_Ms 200, Gpio_Put LED_PIN True])"
  using loader_blocks_on_short_stream [OF sched_short_small, of 1000 zero_ram]
    sched_short_small by blast

lemma sched_burst_success:
  "\<exists>w. bootloader_main 300 (boot sched_burst zero_ram) = (Success, w)"
  by (rule bootloader_main_success [where T = 3])
    (simp_all add: sent_sched_burst PROGRAM_SIZE_def)

lemma snapshot_phase:
  assumes "bootloader_main fuel (boot arr ram0) = (p, w)"
  shows "length (consumed w) \<le> PROGRAM_SIZE"
    and "p = Success \<longleftrightarrow> length (consumed w) = PROGRAM_SIZE"
    and "p = Receiving \<longleftrightarrow> length (consumed w) < PROGRAM_SIZE"
proof -
  from bootloader_main_snapshot [OF assms] obtain j
    where inv: "data_inv arr ram0 j w"
      and j: "p = Receiving \<longrightarrow> j < PROGRAM_SIZE" "p = Success \<longrightarrow> j = PROGRAM_SIZE"
    by auto
  have len: "length (consumed w) = j"
    using inv by (simp add: data_inv_def)
  show "length (consumed w) \<le> PROGRAM_SIZE"
    "p = Success \<longleftrightarrow> length (consumed w) = PROGRAM_SIZE"
    "p = Receiving \<longleftrightarrow> length (consumed w) < PROGRAM_SIZE"
    using j len by (cases p; simp)+
qed

text \<open>
  C4. Loader: no run ever consumes or stores more than 256 bytes. Once 256 bytes have
  been consumed the run is in the success loop, and at every later moment (\<open>k\<close> more
  units of fuel), whatever the sender goes on to send, the bytes consumed, the stores
  made and the memory are what they were: every byte that arrives after the first 256
  stays in the receive FIFO, unread.
\<close>

theorem loader_never_rearms:
  assumes "bootloader_main fuel (boot arr ram0) = (p, w)"
  shows "length (consumed w) \<le> PROGRAM_SIZE \<and> length (stores w) \<le> PROGRAM_SIZE \<and>
         (length (consumed w) = PROGRAM_SIZE \<longrightarrow>
            p = Success \<and>
            (\<exists>w'. bootloader_main (fuel + k) (boot arr ram0) = (Success, w') \<and>
               consumed w' = consumed w \<and> stores w' = stores w \<and> ram w' = ram w \<and>
               rx_fifo w' = drop PROGRAM_SIZE (sent arr (clock w'))))"
proof -
  from bootloader_main_snapshot [OF assms] obtain j
    where inv: "data_inv arr ram0 j w" by auto
  have len: "length (consumed w) \<le> PROGRAM_SIZE" "length (stores w) \<le> PROGRAM_SIZE"
    using snapshot_phase(1) [OF assms] data_inv_stores(3,4) [OF inv] by simp_all
  have "p = Success \<and>
            (\<exists>w'. bootloader_main (fuel + k) (boot arr ram0) = (Success, w') \<and>
               consumed w' = consumed w \<and> stores w' = stores w \<and> ram w' = ram w \<and>
               rx_fifo w' = drop PROGRAM_SIZE (sent arr (clock w')))"
    if full: "length (consumed w) = PROGRAM_SIZE"
  proof -
    from full snapshot_phase(2) [OF assms] have p: "p = Success" by simp
    from full inv have "data_inv arr ram0 PROGRAM_SIZE w"
      by (simp add: data_inv_def)
    then have "data_inv arr ram0 PROGRAM_SIZE (success_loop k w)"
      by (rule success_loop_data_inv)
    from data_inv_consumed(2) [OF this] bootloader_main_more [OF assms [unfolded p], of k] p
    show ?thesis by simp
  qed
  with len show ?thesis by blast
qed

theorem loader_never_rearms_witness:
  "\<exists>w. bootloader_main 300 (boot sched_burst zero_ram) = (Success, w) \<and>
     length (consumed w) = PROGRAM_SIZE \<and> length (stores w) \<le> PROGRAM_SIZE \<and>
     (\<exists>w'. bootloader_main (300 + 7) (boot sched_burst zero_ram) = (Success, w') \<and>
        consumed w' = consumed w \<and> stores w' = stores w \<and> ram w' = ram w \<and>
        rx_fifo w' = drop PROGRAM_SIZE (sent sched_burst (clock w')))"
proof -
  from sched_burst_success obtain w
    where run: "bootloader_main 300 (boot sched_burst zero_ram) = (Success, w)" ..
  have full: "length (consumed w) = PROGRAM_SIZE"
    using snapshot_phase(2) [OF run] by simp
  from loader_never_rearms [OF run, of 7] run full show ?thesis
    by blast
qed

text \<open>
  C5. Loader, at every moment of every run: the bytes stored are the bytes consumed, one
  store per byte and in the same order, at consecutive addresses from the base; the run
  has left the receive loop exactly when 256 bytes have been stored, and is in it
  exactly when fewer have been.
\<close>

theorem receive_loop_one_store_per_byte:
  assumes "bootloader_main fuel (boot arr ram0) = (p, w)"
  shows "map snd (stores w) = consumed w \<and>
         map fst (stores w) = [RAM_LOAD_ADDRESS ..< RAM_LOAD_ADDRESS + length (consumed w)] \<and>
         length (stores w) = length (consumed w) \<and>
         (p = Success \<longleftrightarrow> length (stores w) = PROGRAM_SIZE) \<and>
         (p = Receiving \<longleftrightarrow> length (stores w) < PROGRAM_SIZE)"
proof -
  from bootloader_main_snapshot [OF assms] obtain j
    where inv: "data_inv arr ram0 j w" by auto
  have "length (stores w) = length (consumed w)"
    using data_inv_stores(3,4) [OF inv] by simp
  with data_inv_stores(1,2) [OF inv] snapshot_phase(2,3) [OF assms] show ?thesis
    by simp
qed

theorem receive_loop_one_store_per_byte_witness:
  "\<exists>w. bootloader_main 300 (boot sched_burst zero_ram) = (Success, w) \<and>
     map snd (stores w) = consumed w \<and>
     map fst (stores w) = [RAM_LOAD_ADDRESS ..< RAM_LOAD_ADDRESS + length (consumed w)] \<and>
     length (stores w) = length (consumed w) \<and>
     length (stores w) = PROGRAM_SIZE"
proof -
  from sched_burst_success obtain w
    where run: "bootloader_main 300 (boot sched_burst zero_ram) = (Success, w)" ..
  from receive_loop_one_store_per_byte [OF run] run show ?thesis
    by blast
qed

text \<open>
  C7. Loader: the trace of every run is the start-up, which ends with the LED being
  switched on, then the events of the receive loop, among them every byte consumed and
  no write to a pin and no sleep, then the slow blinks; while the run is in the receive
  loop there are no slow blinks yet and the LED pin is high.
\<close>

theorem loader_led_held_while_receiving:
  assumes "bootloader_main fuel (boot arr ram0) = (p, w)"
  shows "\<exists>tr k. trace w = init_events @ concat (replicate 5 (blink 50)) @
             [Sleep_Ms 200, Gpio_Put LED_PIN True] @ tr @ concat (replicate k (blink 500)) \<and>
           filter led_event tr = [] \<and> concat (map getc_of tr) = consumed w \<and>
           (p = Receiving \<longrightarrow> k = 0 \<and> gpio_out w LED_PIN = True)"
proof -
  from bootloader_main_snapshot [OF assms] obtain tr k
    where tr: "trace w = trace (bootloader_startup (boot arr ram0)) @ tr @
             concat (replicate k (blink 500))" "filter led_event tr = []"
      and p: "p = Receiving \<longrightarrow> k = 0 \<and> gpio_out w LED_PIN = True"
    by auto
  from tr(1) have "trace w = init_events @ concat (replicate 5 (blink 50)) @
             [Sleep_Ms 200, Gpio_Put LED_PIN True] @ tr @ concat (replicate k (blink 500))"
    by (simp add: bootloader_startup_trace)
  with tr(2) snapshot_consumed [OF tr(1)] p show ?thesis by blast
qed

theorem loader_led_held_while_receiving_witness:
  "\<exists>w tr. bootloader_main 1000 (boot sched_short zero_ram) = (Receiving, w) \<and>
     trace w = init_events @ concat (replicate 5 (blink 50)) @
       [Sleep_Ms 200, Gpio_Put LED_PIN True] @ tr @ concat (replicate 0 (blink 500)) \<and>
     filter led_event tr = [] \<and> concat (map getc_of tr) = consumed w \<and>
     gpio_out w LED_PIN = True"
proof -
  obtain w where run: "bootloader_main 1000 (boot sched_short zero_ram) = (Receiving, w)"
    using short_stream_receiving [OF sched_short_small, of 1000 zero_ram]
    by (cases "bootloader_main 1000 (boot sched_short zero_ram)") auto
  from loader_led_held_while_receiving [OF run] run show ?thesis
    by auto
qed

text \<open>
  C8. Loader: once a run is in the success loop it is there at every later moment, and
  each further unit of fuel adds one more cycle of LED on, 500 ms, LED off, 500 ms to
  the trace, and nothing else: the loop has no exit.
\<close>

theorem success_blink_is_terminal:
  assumes "bootloader_main fuel (boot arr ram0) = (Success, w)"
  shows "\<exists>w'. bootloader_main (fuel + k) (boot arr ram0) = (Success, w') \<and>
           trace w' = trace w @ concat (replicate k
             [Gpio_Put LED_PIN True, Sleep_Ms 500, Gpio_Put LED_PIN False, Sleep_Ms 500])"
  using bootloader_main_more [OF assms, of k] success_loop_trace [of k w]
  by (simp add: blink_def)

theorem success_blink_is_terminal_witness:
  "\<exists>w w'. bootloader_main 300 (boot sched_burst zero_ram) = (Success, w) \<and>
     bootloader_main (300 + 2) (boot sched_burst zero_ram) = (Success, w') \<and>
     trace w' = trace w @ concat (replicate 2
       [Gpio_Put LED_PIN True, Sleep_Ms 500, Gpio_Put LED_PIN False, Sleep_Ms 500])"
proof -
  from sched_burst_success obtain w
    where run: "bootloader_main 300 (boot sched_burst zero_ram) = (Success, w)" ..
  from success_blink_is_terminal [OF run, of 2] run show ?thesis
    by blast
qed

subsection \<open>The diagnostic program\<close>

lemma toggles_Suc: "toggles (Suc n) = toggles n @ [Gpio_Put LED_PIN (even n)]"
  by (simp add: toggles_def)

lemma echo_inv_idle:
  assumes "echo_inv arr ws n ls w" and "uart_is_readable w = (False, w')"
  shows "echo_inv arr ws n ls w'"
proof -
  from assms(1) obtain tr where tr: "trace w = trace ws @ tr" "filter led_event tr = toggles n"
    by (auto simp: echo_inv_def)
  from assms(2) have w': "w' = log (Uart_Is_Readable False) (tick w)"
    by (auto simp: uart_is_readable_def Let_def)
  have "trace w' = trace ws @ (tr @ [Uart_Is_Readable False])"
    "filter led_event (tr @ [Uart_Is_Readable False]) = toggles n"
    using tr by (simp_all add: w' sdk_defs)
  then have "\<exists>tr. trace w' = trace ws @ tr \<and> filter led_event tr = toggles n"
    by blast
  moreover have "arrivals w' = arr" "length (consumed w') = n"
    "consumed w' @ rx_fifo w' = sent arr (clock w')" "echoed w' = consumed w'"
    "polls_true w' = n" "gpio_out w' LED_PIN = odd n" "ram w' = ram ws" "stores w' = stores ws"
    using assms(1) by (simp_all add: echo_inv_def w' sdk_defs obs_defs)
  ultimately show ?thesis
    using assms(1) unfolding echo_inv_def by blast
qed

lemma echo_inv_byte:
  assumes "echo_inv arr ws n ls w" and "uart_is_readable w = (True, w1)"
    and "uart_getc w1 = Some (b, w2)"
  shows "echo_inv arr ws (Suc n) (\<not> ls) (uart_putc b (gpio_put LED_PIN (\<not> ls) w2))"
proof -
  let ?w = "uart_putc b (gpio_put LED_PIN (\<not> ls) w2)"
  from assms(1) obtain tr where tr: "trace w = trace ws @ tr" "filter led_event tr = toggles n"
    and ls: "ls = odd n"
    by (auto simp: echo_inv_def)
  from assms(2) have w1: "w1 = log (Uart_Is_Readable True) (tick w)"
    by (auto simp: uart_is_readable_def Let_def)
  from assms(3) obtain bs where fifo: "rx_fifo w1 = b # bs"
    and w2: "w2 = log (Uart_Getc b) (w1\<lparr>rx_fifo := bs\<rparr>)"
    by (auto simp: uart_getc_def split: list.splits)
  let ?new = "[Uart_Is_Readable True, Uart_Getc b, Gpio_Put LED_PIN (\<not> ls), Uart_Putc b]"
  have t: "trace ?w = trace w @ ?new"
    by (simp add: w1 w2 sdk_defs)
  then have "trace ?w = trace ws @ (tr @ ?new)"
    "filter led_event (tr @ ?new) = toggles (Suc n)"
    using tr ls by (simp_all add: toggles_Suc)
  then have "\<exists>tr. trace ?w = trace ws @ tr \<and> filter led_event tr = toggles (Suc n)"
    by blast
  moreover have "arrivals ?w = arr" "ram ?w = ram ws" "gpio_out ?w LED_PIN = odd (Suc n)"
    using assms(1) ls by (simp_all add: echo_inv_def w1 w2 sdk_defs)
  moreover have "consumed ?w = consumed w @ [b]" "echoed ?w = echoed w @ [b]"
    "polls_true ?w = Suc (polls_true w)" "stores ?w = stores w"
    by (simp_all add: obs_defs t)
  moreover have "rx_fifo ?w = bs" "clock ?w = Suc (clock w)"
    by (simp_all add: w1 w2 sdk_defs)
  moreover have "(consumed w @ [b]) @ bs = sent arr (Suc (clock w))"
  proof -
    have "rx_fifo w @ arr (clock w) = b # bs" "consumed w @ rx_fifo w = sent arr (clock w)"
      using assms(1) fifo by (simp_all add: echo_inv_def w1 sdk_defs)
    then have "consumed w @ b # bs = sent arr (clock w) @ arr (clock w)"
      by (metis append_assoc)
    then show ?thesis by simp
  qed
  ultimately show ?thesis
    using assms(1) ls unfolding echo_inv_def by simp
qed

lemma echo_loop_inv:
  assumes "echo_inv arr ws n ls w" and "echo_loop fuel ls w = (ls', w')"
  shows "\<exists>n'. echo_inv arr ws n' ls' w'"
  using assms
proof (induction fuel arbitrary: n ls w)
  case 0
  then show ?case by auto
next
  case (Suc fuel)
  obtain r w1 where p: "uart_is_readable w = (r, w1)"
    by (cases "uart_is_readable w")
  show ?case
  proof (cases r)
    case False
    with p Suc.prems(2) have run: "echo_loop fuel ls w1 = (ls', w')" by simp
    from p False have "uart_is_readable w = (False, w1)" by simp
    from Suc.IH [OF echo_inv_idle [OF Suc.prems(1) this] run] show ?thesis .
  next
    case True
    with p have "rx_fifo w1 \<noteq> []" by (simp add: readable_fifo)
    from getc_nonempty [OF this] obtain b w2 where g: "uart_getc w1 = Some (b, w2)"
      by blast
    with p True Suc.prems(2)
    have run: "echo_loop fuel (\<not> ls) (uart_putc b (gpio_put LED_PIN (\<not> ls) w2)) = (ls', w')"
      by (simp add: Let_def)
    from p True have "uart_is_readable w = (True, w1)" by simp
    from Suc.IH [OF echo_inv_byte [OF Suc.prems(1) this g] run] show ?thesis .
  qed
qed

lemma echo_inv_startup:
  "echo_inv arr (uart_test_startup (boot arr ram0)) 0 False (uart_test_startup (boot arr ram0))"
proof -
  let ?ws = "uart_test_startup (boot arr ram0)"
  have "data_inv arr ram0 0 ?ws"
    by (rule data_inv_uart_test_startup)
  then have "arrivals ?ws = arr" "length (consumed ?ws) = 0"
    "consumed ?ws @ rx_fifo ?ws = sent arr (clock ?ws)" "echoed ?ws = consumed ?ws"
    by (auto simp: data_inv_def)
  moreover have "polls_true ?ws = 0"
    by (simp add: polls_true_def uart_test_startup_trace init_events_def replicate_3 blink_def)
  moreover have "\<exists>tr. trace ?ws = trace ?ws @ tr \<and> filter led_event tr = toggles 0"
    by (simp add: toggles_def)
  ultimately show ?thesis
    unfolding echo_inv_def by (simp add: uart_test_startup_fields)
qed

lemma uart_test_snapshot:
  assumes "uart_test_main fuel (boot arr ram0) = (ls, w)"
  shows "\<exists>n. echo_inv arr (uart_test_startup (boot arr ram0)) n ls w"
  using echo_loop_inv [OF echo_inv_startup] assms
  unfolding uart_test_main_def by blast

lemma echo_inv_prefix:
  assumes "echo_inv arr ws n ls w"
  shows "consumed w = take n (sent arr (clock w))" and "n \<le> length (sent arr (clock w))"
proof -
  from assms have "consumed w @ rx_fifo w = sent arr (clock w)" and "length (consumed w) = n"
    by (simp_all add: echo_inv_def)
  then show "consumed w = take n (sent arr (clock w))" "n \<le> length (sent arr (clock w))"
    by (metis append_eq_conv_conj, metis le_add1 length_append)
qed

lemma echo_step_clock:
  "uart_getc w1 = Some (b, w2) \<Longrightarrow> clock (uart_putc b (gpio_put pin v w2)) = clock w1"
  by (auto simp: sdk_defs split: list.splits)

lemma echo_loop_drains:
  assumes "echo_inv arr ws n ls w" and "\<forall>t\<ge>T. length (sent arr t) = N"
    and "(T - clock w) + (N - n) \<le> fuel" and "echo_loop fuel ls w = (ls', w')"
  shows "length (consumed w') = N"
  using assms(1,3,4)
proof (induction fuel arbitrary: n ls w)
  case 0
  then have "T \<le> clock w" "N \<le> n" "w' = w" by simp_all
  with assms(2) echo_inv_prefix(2) [OF "0.prems"(1)] have "n = N" by simp
  with "0.prems"(1) \<open>w' = w\<close> show ?case by (simp add: echo_inv_def)
next
  case (Suc fuel)
  have bound: "length (sent arr t) \<le> N" for t
    using sent_mono [of t "max t T" arr] assms(2) by simp
  obtain r w1 where p: "uart_is_readable w = (r, w1)"
    by (cases "uart_is_readable w")
  have c1: "clock w1 = Suc (clock w)"
    using p by (rule poll_clock)
  show ?case
  proof (cases r)
    case False
    with p have idle: "uart_is_readable w = (False, w1)" by simp
    note inv1 = echo_inv_idle [OF Suc.prems(1) idle]
    from idle have "rx_fifo w1 = []" by (rule unreadable_fifo)
    with inv1 have n: "n = length (sent arr (clock w1))"
      by (auto simp: echo_inv_def)
    have "(T - clock w1) + (N - n) \<le> fuel"
    proof (cases "T \<le> clock w1")
      case True
      with assms(2) n show ?thesis by simp
    next
      case False
      with c1 Suc.prems(2) show ?thesis by simp
    qed
    moreover from idle Suc.prems(3) have "echo_loop fuel ls w1 = (ls', w')" by simp
    ultimately show ?thesis using Suc.IH [OF inv1] by blast
  next
    case True
    with p have rd: "uart_is_readable w = (True, w1)" by simp
    then have "rx_fifo w1 \<noteq> []" by (rule readable_fifo)
    from getc_nonempty [OF this] obtain b w2 where g: "uart_getc w1 = Some (b, w2)"
      by blast
    let ?w = "uart_putc b (gpio_put LED_PIN (\<not> ls) w2)"
    note inv1 = echo_inv_byte [OF Suc.prems(1) rd g]
    have "Suc n \<le> N"
      using echo_inv_prefix(2) [OF inv1] bound [of "clock ?w"] by simp
    with Suc.prems(2) c1 echo_step_clock [OF g, of LED_PIN "\<not> ls"]
    have "(T - clock ?w) + (N - Suc n) \<le> fuel" by simp
    moreover from rd g Suc.prems(3) have "echo_loop fuel (\<not> ls) ?w = (ls', w')"
      by (simp add: Let_def)
    ultimately show ?thesis using Suc.IH [OF inv1] by blast
  qed
qed

lemma uart_test_echoes_all:
  assumes "\<forall>t\<ge>T. sent arr t = s" and "T + length s \<le> fuel"
    and "uart_test_main fuel (boot arr ram0) = (ls, w)"
  shows "consumed w = s"
proof -
  let ?ws = "uart_test_startup (boot arr ram0)"
  from assms(1) have fin: "\<forall>t\<ge>T. length (sent arr t) = length s" by simp
  have "length (consumed w) = length s"
  proof (rule echo_loop_drains [OF echo_inv_startup fin])
    show "T - clock ?ws + (length s - 0) \<le> fuel"
      using assms(2) by simp
    show "echo_loop fuel False ?ws = (ls, w)"
      using assms(3) by (simp add: uart_test_main_def)
  qed
  moreover from uart_test_snapshot [OF assms(3)] obtain n where "echo_inv arr ?ws n ls w" ..
  note pre = echo_inv_prefix [OF this]
  moreover have "sent arr (max T (clock w)) = s"
    using assms(1) by simp
  ultimately show ?thesis
    using sent_take_eq [of "length s" arr "clock w" "max T (clock w)"]
    by (simp add: echo_inv_def)
qed

lemma sent_sched_slow:
  "sent sched_slow t =
     (if t \<le> 5 then [] else if t \<le> 10 then [1] else if t \<le> 15 then [1, 2] else [1, 2, 3])"
  by (induction t) (auto simp: sched_slow_def)

lemma sched_slow_done: "\<forall>t\<ge>16. sent sched_slow t = [1, 2, 3]"
  by (simp add: sent_sched_slow)

lemma sent_sched_burst_late: "\<forall>t\<ge>3. sent sched_burst t = map word_of_nat [0..<300]"
proof (intro allI impI)
  fix t :: nat
  assume "3 \<le> t"
  then have "sent sched_burst t = sent sched_burst 3 @ concat (map sched_burst [3..<3 + (t - 3)])"
    using sent_add [of sched_burst 3 "t - 3"] by simp
  moreover have "concat (map sched_burst [3..<3 + (t - 3)]) = []"
    by (simp add: sched_burst_def)
  ultimately show "sent sched_burst t = map word_of_nat [0..<300]"
    by (simp add: sent_sched_burst)
qed

lemma uart_test_main_0: "uart_test_main 0 w0 = (False, uart_test_startup w0)"
  by (simp add: uart_test_main_def)

lemma bootloader_main_0: "bootloader_main 0 w0 = (Receiving, bootloader_startup w0)"
  by (simp add: bootloader_main_def receive_loop.simps PROGRAM_SIZE_def)

lemma echo_inv_waveform:
  assumes "echo_inv arr (uart_test_startup (boot arr ram0)) n ls w"
  shows "waveform w = concat (replicate 3 (blink 100)) @ toggles n"
proof -
  from assms obtain tr where "trace w = trace (uart_test_startup (boot arr ram0)) @ tr"
    "filter led_event tr = toggles n"
    by (auto simp: echo_inv_def)
  then show ?thesis
    by (simp add: waveform_def uart_test_startup_trace)
qed

text \<open>
  C2. Diagnostic program, at every moment of every run: the bytes echoed are the bytes
  consumed, which are the first bytes of the stream, in order; one byte has been
  consumed for each check that found a byte available; after the three ready blinks the
  LED pin has been written once per byte consumed, with alternating levels that start
  with high (the pin was low), so each write toggles it. When the sender sends the \<open>N\<close>
  bytes \<open>s\<close>, with any delays, and has finished by time \<open>T\<close>, a run with fuel
  \<open>T + N\<close> or more has echoed exactly \<open>s\<close>.
\<close>

theorem echo_identity:
  assumes "uart_test_main fuel (boot arr ram0) = (led_state, w)"
  shows "echoed w = consumed w \<and>
         consumed w = take (length (consumed w)) (sent arr (clock w)) \<and>
         polls_true w = length (consumed w) \<and>
         waveform w = concat (replicate 3 (blink 100)) @
           map (\<lambda>k. Gpio_Put LED_PIN (even k)) [0..<length (consumed w)] \<and>
         gpio_out w LED_PIN = odd (length (consumed w)) \<and>
         led_state = odd (length (consumed w)) \<and>
         ((\<forall>t\<ge>T. sent arr t = s) \<and> T + length s \<le> fuel \<longrightarrow> echoed w = s)"
proof -
  from uart_test_snapshot [OF assms] obtain n
    where inv: "echo_inv arr (uart_test_startup (boot arr ram0)) n led_state w" ..
  then have n: "length (consumed w) = n"
    by (simp add: echo_inv_def)
  have "echoed w = s" if "(\<forall>t\<ge>T. sent arr t = s) \<and> T + length s \<le> fuel"
    using uart_test_echoes_all [OF _ _ assms, of T s] that inv by (simp add: echo_inv_def)
  moreover have "waveform w = concat (replicate 3 (blink 100)) @
           map (\<lambda>k. Gpio_Put LED_PIN (even k)) [0..<length (consumed w)]"
    using echo_inv_waveform [OF inv] n by (simp add: toggles_def)
  moreover have "echoed w = consumed w" "polls_true w = length (consumed w)"
    "gpio_out w LED_PIN = odd (length (consumed w))" "led_state = odd (length (consumed w))"
    using inv by (simp_all add: echo_inv_def)
  ultimately show ?thesis
    using echo_inv_prefix(1) [OF inv] n by simp
qed

theorem echo_identity_witness:
  "\<exists>w. uart_test_main 40 (boot sched_slow zero_ram) = (True, w) \<and>
     echoed w = [1, 2, 3] \<and> consumed w = [1, 2, 3] \<and> polls_true w = 3 \<and>
     waveform w = concat (replicate 3 (blink 100)) @
       [Gpio_Put LED_PIN True, Gpio_Put LED_PIN False, Gpio_Put LED_PIN True] \<and>
     gpio_out w LED_PIN = True"
proof -
  obtain ls w where run: "uart_test_main 40 (boot sched_slow zero_ram) = (ls, w)"
    by (cases "uart_test_main 40 (boot sched_slow zero_ram)")
  note e = echo_identity [OF run, of 16 "[1, 2, 3]"]
  from e have "(\<forall>t\<ge>16. sent sched_slow t = [1, 2, 3]) \<and>
      16 + length [1, 2, 3 :: byte] \<le> (40 :: nat) \<longrightarrow> echoed w = [1, 2, 3]"
    by blast
  with sched_slow_done have s: "echoed w = [1, 2, 3]" by simp
  moreover from e have "echoed w = consumed w" by blast
  ultimately have c: "consumed w = [1, 2, 3]" by simp
  from e c have "ls = True" "polls_true w = 3" "gpio_out w LED_PIN = True"
    "waveform w = concat (replicate 3 (blink 100)) @
       [Gpio_Put LED_PIN True, Gpio_Put LED_PIN False, Gpio_Put LED_PIN True]"
    by (simp_all add: numeral_3_eq_3)
  with run s c show ?thesis by blast
qed

text \<open>
  C6. Ready phase, whatever arrives on the serial line meanwhile: when the diagnostic
  program enters its main loop (the snapshot with no fuel) its trace is the four
  initialisation calls and exactly three cycles of LED on, 100 ms, LED off, 100 ms; when
  the loader enters its receive loop its trace is the initialisation, exactly five
  cycles with 50 ms, the 200 ms pause and the LED switched on. Every later snapshot
  extends these traces.
\<close>

theorem ready_phase_cycles:
  "trace (snd (uart_test_main 0 (boot arr ram0))) =
     init_events @ concat (replicate 3
       [Gpio_Put LED_PIN True, Sleep_Ms 100, Gpio_Put LED_PIN False, Sleep_Ms 100]) \<and>
   trace (snd (bootloader_main 0 (boot arr ram0))) =
     init_events @ concat (replicate 5
       [Gpio_Put LED_PIN True, Sleep_Ms 50, Gpio_Put LED_PIN False, Sleep_Ms 50]) @
     [Sleep_Ms 200, Gpio_Put LED_PIN True] \<and>
   (\<exists>tr. trace (snd (uart_test_main fuel (boot arr ram0))) =
      trace (snd (uart_test_main 0 (boot arr ram0))) @ tr) \<and>
   (\<exists>tr. trace (snd (bootloader_main fuel (boot arr ram0))) =
      trace (snd (bootloader_main 0 (boot arr ram0))) @ tr)"
proof -
  obtain ls w where d: "uart_test_main fuel (boot arr ram0) = (ls, w)"
    by (cases "uart_test_main fuel (boot arr ram0)")
  from uart_test_snapshot [OF d] obtain tr
    where "trace w = trace (uart_test_startup (boot arr ram0)) @ tr"
    by (auto simp: echo_inv_def)
  with d have 1: "\<exists>tr. trace (snd (uart_test_main fuel (boot arr ram0))) =
      trace (snd (uart_test_main 0 (boot arr ram0))) @ tr"
    by (simp add: uart_test_main_0)
  obtain p w' where l: "bootloader_main fuel (boot arr ram0) = (p, w')"
    by (cases "bootloader_main fuel (boot arr ram0)")
  from bootloader_main_snapshot [OF l] obtain tr k
    where "trace w' = trace (bootloader_startup (boot arr ram0)) @ tr @
             concat (replicate k (blink 500))"
    by auto
  with l have 2: "\<exists>tr. trace (snd (bootloader_main fuel (boot arr ram0))) =
      trace (snd (bootloader_main 0 (boot arr ram0))) @ tr"
    by (simp add: bootloader_main_0)
  from 1 2 show ?thesis
    by (simp add: uart_test_main_0 bootloader_main_0 uart_test_startup_trace
        bootloader_startup_trace blink_def)
qed

theorem ready_phase_cycles_witness:
  "trace (snd (uart_test_main 0 (boot sched_burst zero_ram))) =
     init_events @ concat (replicate 3
       [Gpio_Put LED_PIN True, Sleep_Ms 100, Gpio_Put LED_PIN False, Sleep_Ms 100]) \<and>
   trace (snd (bootloader_main 0 (boot sched_burst zero_ram))) =
     init_events @ concat (replicate 5
       [Gpio_Put LED_PIN True, Sleep_Ms 50, Gpio_Put LED_PIN False, Sleep_Ms 50]) @
     [Sleep_Ms 200, Gpio_Put LED_PIN True]"
  using ready_phase_cycles [of sched_burst zero_ram 0] by blast

lemma uart_test_echoed:
  assumes "uart_test_main fuel (boot arr ram0) = (ls, w)"
  shows "echoed w = consumed w"
  using uart_test_snapshot [OF assms] by (auto simp: echo_inv_def)

text \<open>
  C9. In both programs nothing has been consumed when the main loop is entered: the
  bytes that arrived during initialisation and the ready blinks are all in the receive
  FIFO, in order. At every later moment the bytes consumed are the first bytes of the
  stream, so the first byte the diagnostic program echoes and the byte the loader holds
  at index 0 are the first byte of the stream.
\<close>

theorem startup_consumes_nothing:
  assumes "uart_test_main fuel (boot arr ram0) = (led_state, w)"
    and "bootloader_main fuel' (boot arr ram0) = (p, w')"
  shows "consumed (snd (uart_test_main 0 (boot arr ram0))) = [] \<and>
         rx_fifo (snd (uart_test_main 0 (boot arr ram0))) = sent arr 6 \<and>
         consumed (snd (bootloader_main 0 (boot arr ram0))) = [] \<and>
         rx_fifo (snd (bootloader_main 0 (boot arr ram0))) = sent arr 11 \<and>
         echoed w = take (length (echoed w)) (sent arr (clock w)) \<and>
         (echoed w \<noteq> [] \<longrightarrow> hd (echoed w) = hd (sent arr (clock w))) \<and>
         consumed w' = take (length (consumed w')) (sent arr (clock w')) \<and>
         (consumed w' \<noteq> [] \<longrightarrow> ram w' RAM_LOAD_ADDRESS = hd (sent arr (clock w')))"
proof -
  have d0: "consumed (uart_test_startup (boot arr ram0)) = []"
    "rx_fifo (uart_test_startup (boot arr ram0)) = sent arr 6"
    using data_inv_consumed(1,2) [OF data_inv_uart_test_startup, of arr ram0]
    by (simp_all add: uart_test_startup_fields)
  have l0: "consumed (bootloader_startup (boot arr ram0)) = []"
    "rx_fifo (bootloader_startup (boot arr ram0)) = sent arr 11"
    using data_inv_consumed(1,2) [OF data_inv_bootloader_startup, of arr ram0]
    by (simp_all add: bootloader_startup_fields)
  from uart_test_snapshot [OF assms(1)] obtain n
    where inv: "echo_inv arr (uart_test_startup (boot arr ram0)) n led_state w" ..
  then have e: "echoed w = consumed w" "length (consumed w) = n"
    by (simp_all add: echo_inv_def)
  with echo_inv_prefix(1) [OF inv]
  have d1: "echoed w = take (length (echoed w)) (sent arr (clock w))" by simp
  then have d2: "hd (echoed w) = hd (sent arr (clock w))" if "echoed w \<noteq> []"
    using that by (metis hd_take length_greater_0_conv)
  from bootloader_main_snapshot [OF assms(2)] obtain j
    where dinv: "data_inv arr ram0 j w'" by auto
  then have j: "length (consumed w') = j"
    by (simp add: data_inv_def)
  with data_inv_consumed(1) [OF dinv]
  have l1: "consumed w' = take (length (consumed w')) (sent arr (clock w'))" by simp
  have l2: "ram w' RAM_LOAD_ADDRESS = hd (sent arr (clock w'))" if "consumed w' \<noteq> []"
  proof -
    from that j have "0 < j" by auto
    from data_inv_ram [OF dinv this] have "ram w' RAM_LOAD_ADDRESS = hd (consumed w')"
      using that by (simp add: hd_conv_nth)
    also have "\<dots> = hd (sent arr (clock w'))"
      using l1 that by (metis hd_take length_greater_0_conv)
    finally show ?thesis .
  qed
  from d0 l0 d1 d2 l1 l2 show ?thesis
    by (simp add: uart_test_main_0 bootloader_main_0)
qed

theorem startup_consumes_nothing_witness:
  "\<exists>ls w w'. uart_test_main 400 (boot sched_burst zero_ram) = (ls, w) \<and>
     bootloader_main 300 (boot sched_burst zero_ram) = (Success, w') \<and>
     consumed (snd (uart_test_main 0 (boot sched_burst zero_ram))) = [] \<and>
     rx_fifo (snd (uart_test_main 0 (boot sched_burst zero_ram))) = sent sched_burst 6 \<and>
     consumed (snd (bootloader_main 0 (boot sched_burst zero_ram))) = [] \<and>
     rx_fifo (snd (bootloader_main 0 (boot sched_burst zero_ram))) = sent sched_burst 11 \<and>
     echoed w \<noteq> [] \<and> hd (echoed w) = hd (sent sched_burst (clock w)) \<and>
     consumed w' \<noteq> [] \<and> ram w' RAM_LOAD_ADDRESS = hd (sent sched_burst (clock w'))"
proof -
  obtain ls w where d: "uart_test_main 400 (boot sched_burst zero_ram) = (ls, w)"
    by (cases "uart_test_main 400 (boot sched_burst zero_ram)")
  from sched_burst_success obtain w'
    where l: "bootloader_main 300 (boot sched_burst zero_ram) = (Success, w')" ..
  have "consumed w = map word_of_nat [0..<300]"
    by (rule uart_test_echoes_all [OF sent_sched_burst_late _ d]) simp
  with uart_test_echoed [OF d] have 1: "echoed w \<noteq> []" by simp
  have "length (consumed w') = PROGRAM_SIZE"
    using snapshot_phase(2) [OF l] by simp
  then have 2: "consumed w' \<noteq> []" by (auto simp: PROGRAM_SIZE_def)
  from startup_consumes_nothing [OF d l] d l 1 2 show ?thesis
    by blast
qed

subsection \<open>Independence of timing\<close>

lemma covers_length:
  assumes "covers arr2 arr1"
  shows "\<exists>t'. sent arr1 t = take (length (sent arr1 t)) (sent arr2 t') \<and>
           length (sent arr1 t) \<le> length (sent arr2 t')"
proof -
  from assms obtain t' where t': "sent arr1 t = take (length (sent arr1 t)) (sent arr2 t')"
    unfolding covers_def by blast
  have "length (sent arr1 t) = length (take (length (sent arr1 t)) (sent arr2 t'))"
    using arg_cong [OF t', of length] .
  then have "length (sent arr1 t) = min (length (sent arr2 t')) (length (sent arr1 t))"
    by (simp only: length_take)
  then have "length (sent arr1 t) \<le> length (sent arr2 t')" by linarith
  with t' show ?thesis by blast
qed

lemma covers_take:
  assumes "covers arr2 arr1" and "n \<le> length (sent arr1 t1)" and "n \<le> length (sent arr2 t2)"
  shows "take n (sent arr1 t1) = take n (sent arr2 t2)"
proof -
  from covers_length [OF assms(1), of t1] obtain t'
    where t': "sent arr1 t1 = take (length (sent arr1 t1)) (sent arr2 t')"
      "length (sent arr1 t1) \<le> length (sent arr2 t')"
    by blast
  have "take n (sent arr1 t1) = take n (take (length (sent arr1 t1)) (sent arr2 t'))"
    using t'(1) by simp
  also have "\<dots> = take n (sent arr2 t')"
    using assms(2) by (simp add: min_def)
  also have "\<dots> = take n (sent arr2 t2)"
    using assms(2,3) t'(2) by (intro sent_take_eq) simp_all
  finally show ?thesis .
qed

lemma same_stream_sym: "same_stream arr1 arr2 \<Longrightarrow> same_stream arr2 arr1"
  by (simp add: same_stream_def)

lemma echo_loop_reaches:
  assumes "echo_inv arr ws n0 ls w" and "n0 \<le> n" and "n \<le> length (sent arr T)"
    and "(T - clock w) + (n - n0) \<le> m"
  shows "\<exists>fuel ls' w'. echo_loop fuel ls w = (ls', w') \<and> echo_inv arr ws n ls' w'"
  using assms(1,2,4)
proof (induction m arbitrary: n0 ls w)
  case 0
  then have "n0 = n" by simp
  with "0.prems"(1) have "echo_loop 0 ls w = (ls, w) \<and> echo_inv arr ws n ls w" by simp
  then show ?case by blast
next
  case (Suc m)
  show ?case
  proof (cases "n0 = n")
    case True
    with Suc.prems(1) have "echo_loop 0 ls w = (ls, w) \<and> echo_inv arr ws n ls w" by simp
    then show ?thesis by blast
  next
    case False
    with Suc.prems(2) have lt: "n0 < n" by simp
    obtain r w1 where p: "uart_is_readable w = (r, w1)"
      by (cases "uart_is_readable w")
    have c1: "clock w1 = Suc (clock w)"
      using p by (rule poll_clock)
    show ?thesis
    proof (cases r)
      case False
      with p have idle: "uart_is_readable w = (False, w1)" by simp
      note inv1 = echo_inv_idle [OF Suc.prems(1) idle]
      from idle have "rx_fifo w1 = []" by (rule unreadable_fifo)
      with inv1 have "n0 = length (sent arr (clock w1))"
        by (auto simp: echo_inv_def)
      with lt assms(3) have "clock w1 < T"
        using sent_mono [of T "clock w1" arr] by (cases "clock w1 < T") auto
      with c1 Suc.prems(3) have "(T - clock w1) + (n - n0) \<le> m" by simp
      from Suc.IH [OF inv1 Suc.prems(2) this] obtain fuel ls' w'
        where "echo_loop fuel ls w1 = (ls', w')" "echo_inv arr ws n ls' w'"
        by blast
      with idle have "echo_loop (Suc fuel) ls w = (ls', w') \<and> echo_inv arr ws n ls' w'"
        by simp
      then show ?thesis by blast
    next
      case True
      with p have rd: "uart_is_readable w = (True, w1)" by simp
      then have "rx_fifo w1 \<noteq> []" by (rule readable_fifo)
      from getc_nonempty [OF this] obtain b w2 where g: "uart_getc w1 = Some (b, w2)"
        by blast
      let ?w = "uart_putc b (gpio_put LED_PIN (\<not> ls) w2)"
      note inv1 = echo_inv_byte [OF Suc.prems(1) rd g]
      have "(T - clock ?w) + (n - Suc n0) \<le> m"
        using Suc.prems(3) lt c1 echo_step_clock [OF g, of LED_PIN "\<not> ls"] by simp
      from Suc.IH [OF inv1 _ this] lt obtain fuel ls' w'
        where "echo_loop fuel (\<not> ls) ?w = (ls', w')" "echo_inv arr ws n ls' w'"
        by auto
      with rd g have "echo_loop (Suc fuel) ls w = (ls', w') \<and> echo_inv arr ws n ls' w'"
        by (simp add: Let_def)
      then show ?thesis by blast
    qed
  qed
qed

lemma uart_test_simulated:
  assumes "covers arr2 arr1" and "uart_test_main f1 (boot arr1 r1) = (l1, w1)"
  shows "\<exists>f2 w2. uart_test_main f2 (boot arr2 r2) = (l1, w2) \<and>
           echoed w2 = echoed w1 \<and> waveform w2 = waveform w1 \<and> polls_true w2 = polls_true w1"
proof -
  from uart_test_snapshot [OF assms(2)] obtain n
    where inv1: "echo_inv arr1 (uart_test_startup (boot arr1 r1)) n l1 w1" ..
  note pre1 = echo_inv_prefix [OF inv1]
  from covers_length [OF assms(1), of "clock w1"] obtain T
    where "length (sent arr1 (clock w1)) \<le> length (sent arr2 T)" by blast
  with pre1(2) have T: "n \<le> length (sent arr2 T)" by (rule order_trans)
  from echo_loop_reaches [OF echo_inv_startup _ T order_refl, of r2] obtain f2 l2 w2
    where run: "echo_loop f2 False (uart_test_startup (boot arr2 r2)) = (l2, w2)"
      and inv2: "echo_inv arr2 (uart_test_startup (boot arr2 r2)) n l2 w2"
    by auto
  note pre2 = echo_inv_prefix [OF inv2]
  have "consumed w2 = consumed w1"
    using pre1 pre2 covers_take [OF assms(1), of n "clock w1" "clock w2"] by simp
  moreover have "echoed w1 = consumed w1" "echoed w2 = consumed w2" "l1 = odd n" "l2 = odd n"
    "polls_true w1 = n" "polls_true w2 = n"
    using inv1 inv2 by (simp_all add: echo_inv_def)
  moreover note echo_inv_waveform [OF inv1] echo_inv_waveform [OF inv2]
  ultimately show ?thesis
    using run by (auto simp: uart_test_main_def)
qed


lemma wait_readable_fuel:
  "wait_readable fuel w = Inr (fuel', w') \<Longrightarrow> fuel' < fuel"
proof (induction fuel arbitrary: w)
  case 0
  then show ?case by simp
next
  case (Suc fuel)
  obtain r w1 where p: "uart_is_readable w = (r, w1)"
    by (cases "uart_is_readable w")
  show ?case
    using Suc.prems Suc.IH [of w1] p
    by (cases r) (auto simp: tight_loop_contents_def)
qed

lemma wait_readable_less:
  "wait_readable fuel w = Inr (fuel', w') \<Longrightarrow> d \<le> fuel' \<Longrightarrow>
   wait_readable (fuel - d) w = Inr (fuel' - d, w')"
proof (induction fuel arbitrary: w)
  case 0
  then show ?case by simp
next
  case (Suc fuel)
  obtain r w1 where p: "uart_is_readable w = (r, w1)"
    by (cases "uart_is_readable w")
  from wait_readable_fuel [OF Suc.prems(1)] Suc.prems(2) have "d \<le> fuel" by simp
  then have s: "Suc fuel - d = Suc (fuel - d)" by simp
  show ?case
  proof (cases r)
    case True
    with p Suc.prems(1) show ?thesis unfolding s by simp
  next
    case False
    with p Suc.prems(1) have "wait_readable fuel w1 = Inr (fuel', w')"
      by (simp add: tight_loop_contents_def)
    from Suc.IH [OF this Suc.prems(2)] p False show ?thesis
      unfolding s by (simp add: tight_loop_contents_def)
  qed
qed

lemma receive_loop_fuel:
  "receive_loop i fuel w = Inr (fuel', w') \<Longrightarrow> fuel' \<le> fuel"
proof (induction i fuel w rule: receive_loop.induct)
  case (1 i fuel w)
  show ?case
  proof (cases "i < PROGRAM_SIZE")
    case False
    with "1.prems" show ?thesis by (simp add: receive_loop.simps)
  next
    case True
    from "1.prems" True obtain f1 w1 b w2 where
      a: "wait_readable fuel w = Inr (f1, w1)" and g: "uart_getc w1 = Some (b, w2)"
      and r: "receive_loop (Suc i) f1 (store (RAM_LOAD_ADDRESS + i) b w2) = Inr (fuel', w')"
      by (subst (asm) receive_loop.simps) (auto split: sum.splits option.splits)
    have "fuel' \<le> f1"
      using True a g r by (intro "1.IH") auto
    with wait_readable_fuel [OF a] show ?thesis by simp
  qed
qed

lemma receive_loop_less:
  "receive_loop i fuel w = Inr (fuel', w') \<Longrightarrow> d \<le> fuel' \<Longrightarrow>
   receive_loop i (fuel - d) w = Inr (fuel' - d, w')"
proof (induction i fuel w rule: receive_loop.induct)
  case (1 i fuel w)
  show ?case
  proof (cases "i < PROGRAM_SIZE")
    case False
    with "1.prems" show ?thesis by (simp add: receive_loop.simps)
  next
    case True
    from "1.prems"(1) True obtain f1 w1 b w2 where
      a: "wait_readable fuel w = Inr (f1, w1)" and g: "uart_getc w1 = Some (b, w2)"
      and r: "receive_loop (Suc i) f1 (store (RAM_LOAD_ADDRESS + i) b w2) = Inr (fuel', w')"
      by (subst (asm) receive_loop.simps) (auto split: sum.splits option.splits)
    have "receive_loop (Suc i) (f1 - d) (store (RAM_LOAD_ADDRESS + i) b w2) = Inr (fuel' - d, w')"
      using True a g r "1.prems"(2) by (intro "1.IH") auto
    moreover have "d \<le> f1"
      using receive_loop_fuel [OF r] "1.prems"(2) by simp
    note wait_readable_less [OF a this]
    ultimately show ?thesis
      using True g by (subst receive_loop.simps) simp
  qed
qed

lemma receive_loop_reaches:
  assumes "data_inv arr ram0 i w" and "i \<le> n" and "n < PROGRAM_SIZE"
    and "n \<le> length (sent arr T)"
  shows "\<exists>fuel w'. receive_loop i fuel w = Inl w' \<and> data_inv arr ram0 n w'"
  using assms(1,2)
proof (induction "n - i" arbitrary: i w)
  case 0
  then have "i = n" by simp
  with "0.prems"(1) assms(3)
  have "receive_loop i 0 w = Inl w \<and> data_inv arr ram0 n w"
    by (simp add: receive_loop.simps)
  then show ?case by blast
next
  case (Suc k)
  then have lt: "i < n" by simp
  with assms(3,4) have i: "i < PROGRAM_SIZE" "i < length (sent arr T)" by simp_all
  have "(T - clock w) + 0 + 1 \<le> T - clock w + 1" by simp
  from wait_readable_progress [OF Suc.prems(1) i(2) this]
  obtain f1 w1 where a: "wait_readable (T - clock w + 1) w = Inr (f1, w1)"
    by blast
  from wait_readable_inv [OF Suc.prems(1) led_inv_refl, of "T - clock w + 1"] a
  have inv1: "data_inv arr ram0 i w1" and ne: "rx_fifo w1 \<noteq> []"
    by simp_all
  from getc_nonempty [OF ne] obtain b w2 where g: "uart_getc w1 = Some (b, w2)"
    by blast
  let ?w = "store (RAM_LOAD_ADDRESS + i) b w2"
  have "k = n - Suc i" using Suc.hyps(2) by simp
  from Suc.hyps(1) [OF this data_inv_getc_store [OF inv1 g]] lt
  obtain fuel w' where r: "receive_loop (Suc i) fuel ?w = Inl w'"
    and inv: "data_inv arr ram0 n w'"
    by auto
  from wait_readable_less [OF a order_refl]
  have "wait_readable (T - clock w + 1 - f1) w = Inr (0, w1)" by simp
  from wait_readable_more [OF this, of fuel]
  have "wait_readable (T - clock w + 1 - f1 + fuel) w = Inr (fuel, w1)" by simp
  with i(1) g r have "receive_loop i (T - clock w + 1 - f1 + fuel) w = Inl w'"
    by (subst receive_loop.simps) simp
  with inv show ?case by blast
qed

lemma success_entry:
  assumes "PROGRAM_SIZE \<le> length (sent arr T)"
  shows "\<exists>fuel w. bootloader_main fuel (boot arr ram0) = (Success, w) \<and>
           data_inv arr ram0 PROGRAM_SIZE w \<and>
           waveform w = waveform (bootloader_startup (boot arr ram0))"
proof -
  let ?ws = "bootloader_startup (boot arr ram0)"
  from bootloader_main_success [OF assms order_refl, of ram0] obtain w1
    where "bootloader_main (T + PROGRAM_SIZE) (boot arr ram0) = (Success, w1)" ..
  then obtain f' w where r: "receive_loop 0 (T + PROGRAM_SIZE) ?ws = Inr (f', w)"
    by (auto simp: bootloader_main_def split: sum.splits)
  from receive_loop_less [OF r order_refl]
  have r0: "receive_loop 0 (T + PROGRAM_SIZE - f') ?ws = Inr (0, w)" by simp
  then have "bootloader_main (T + PROGRAM_SIZE - f') (boot arr ram0) = (Success, w)"
    by (simp add: bootloader_main_def)
  moreover from receive_loop_inv [OF data_inv_bootloader_startup led_inv_refl,
      of arr ram0 "T + PROGRAM_SIZE - f'"] r0
  have "data_inv arr ram0 PROGRAM_SIZE w" "led_inv ?ws w"
    by simp_all
  moreover from this(2) have "waveform w = waveform ?ws"
    by (auto simp: led_inv_def waveform_def)
  ultimately show ?thesis by blast
qed

lemma success_loop_waveform:
  "waveform (success_loop k w) = waveform w @ concat (replicate k (blink 500))"
  by (simp add: waveform_def success_loop_trace)

lemma data_inv_ram_eq:
  assumes "data_inv arr1 ram0 n w1" and "data_inv arr2 ram0 n w2"
    and "consumed w1 = consumed w2"
  shows "ram w1 = ram w2" and "stores w1 = stores w2"
  using assms by (auto simp: data_inv_def)

lemma bootloader_simulated:
  assumes "covers arr2 arr1" and "bootloader_main g1 (boot arr1 ram0) = (p, v1)"
  shows "\<exists>g2 v2. bootloader_main g2 (boot arr2 ram0) = (p, v2) \<and>
           buffer v2 = buffer v1 \<and> ram v2 = ram v1 \<and> stores v2 = stores v1 \<and>
           waveform v2 = waveform v1"
proof -
  let ?W = "concat (replicate 5 (blink 50)) @ [Sleep_Ms 200, Gpio_Put LED_PIN True]"
  from bootloader_main_snapshot [OF assms(2)] obtain n tr k
    where inv1: "data_inv arr1 ram0 n v1"
      and tr: "trace v1 = trace (bootloader_startup (boot arr1 ram0)) @ tr @
             concat (replicate k (blink 500))" "filter led_event tr = []"
      and rc: "p = Receiving \<longrightarrow> n < PROGRAM_SIZE \<and> k = 0"
      and sc: "p = Success \<longrightarrow> n = PROGRAM_SIZE"
    by auto
  from snapshot_waveform [OF tr] have wave1: "waveform v1 = ?W @ concat (replicate k (blink 500))"
    by simp
  have ws2: "waveform (bootloader_startup (boot arr2 ram0)) = ?W"
    by (simp add: waveform_def bootloader_startup_trace)
  note pre1 = data_inv_consumed [OF inv1]
  from covers_length [OF assms(1), of "clock v1"] obtain T
    where "length (sent arr1 (clock v1)) \<le> length (sent arr2 T)" by blast
  with pre1(3) have T: "n \<le> length (sent arr2 T)" by (rule order_trans)
  have "\<exists>g2 v2. bootloader_main g2 (boot arr2 ram0) = (p, v2) \<and> data_inv arr2 ram0 n v2 \<and>
      waveform v2 = waveform v1"
  proof (cases p)
    case Receiving
    with rc have n: "n < PROGRAM_SIZE" and k: "k = 0" by simp_all
    from receive_loop_reaches [OF data_inv_bootloader_startup _ n T, of ram0] obtain g2 v2
      where r: "receive_loop 0 g2 (bootloader_startup (boot arr2 ram0)) = Inl v2"
        and inv2: "data_inv arr2 ram0 n v2"
      by auto
    then have run: "bootloader_main g2 (boot arr2 ram0) = (Receiving, v2)"
      by (simp add: bootloader_main_def)
    from bootloader_main_snapshot [OF run] obtain tr2
      where "trace v2 = trace (bootloader_startup (boot arr2 ram0)) @ tr2 @
             concat (replicate 0 (blink 500))" "filter led_event tr2 = []"
      by auto
    from snapshot_waveform [OF this] have "waveform v2 = ?W" by simp
    with wave1 k run inv2 Receiving show ?thesis by auto
  next
    case Success
    with sc have n: "n = PROGRAM_SIZE" by simp
    from success_entry [of arr2 T ram0] T n obtain g w
      where run: "bootloader_main g (boot arr2 ram0) = (Success, w)"
        and inv: "data_inv arr2 ram0 PROGRAM_SIZE w"
        and wave: "waveform w = waveform (bootloader_startup (boot arr2 ram0))"
      by auto
    have "bootloader_main (g + k) (boot arr2 ram0) = (Success, success_loop k w)"
      using run by (rule bootloader_main_more)
    moreover have "data_inv arr2 ram0 n (success_loop k w)"
      unfolding n using inv by (rule success_loop_data_inv)
    moreover have "waveform (success_loop k w) = waveform v1"
      by (simp add: success_loop_waveform wave ws2 wave1)
    ultimately show ?thesis using Success by blast
  qed
  then obtain g2 v2 where run: "bootloader_main g2 (boot arr2 ram0) = (p, v2)"
    and inv2: "data_inv arr2 ram0 n v2" and wave: "waveform v2 = waveform v1"
    by blast
  note pre2 = data_inv_consumed [OF inv2]
  have c: "consumed v2 = consumed v1"
    using pre1 pre2 covers_take [OF assms(1), of n "clock v1" "clock v2"] by simp
  from data_inv_ram_eq [OF inv2 inv1 c] have "ram v2 = ram v1" "stores v2 = stores v1" .
  moreover from this(1) have "buffer v2 = buffer v1"
    by (simp add: buffer_def)
  ultimately show ?thesis using run wave by blast
qed


lemma sent_sched_burst_all:
  "sent sched_burst t = (if t \<le> 2 then [] else map word_of_nat [0..<300])"
  by (induction t) (auto simp: sched_burst_def)

lemma sent_sched_trickle: "sent sched_trickle t = map word_of_nat [0..<min t 300]"
  by (induction t) (auto simp: sched_trickle_def min_def)

lemma same_stream_burst_trickle: "same_stream sched_burst sched_trickle"
proof -
  have "\<exists>t'. sent sched_burst t = take (length (sent sched_burst t)) (sent sched_trickle t')"
    for t
    by (rule exI [of _ 300]) (simp add: sent_sched_burst_all sent_sched_trickle)
  moreover
  have "\<exists>t'. sent sched_trickle t = take (length (sent sched_trickle t)) (sent sched_burst t')"
    for t
    by (rule exI [of _ 3])
      (simp add: sent_sched_burst_all sent_sched_trickle take_map min_def)
  ultimately show ?thesis
    by (simp add: same_stream_def covers_def)
qed

text \<open>
  C10. Two runs of a program on two schedules that deliver the same stream, with
  whatever timing: every snapshot of either run is matched by a snapshot of the other
  with identical outputs. Diagnostic program: the same bytes echoed, the same LED
  waveform and the same LED state. Loader: the same phase, the same buffer and memory,
  the same stores and the same LED waveform. So the outputs of a run, as sequences, are
  a function of the byte stream alone; two runs on the same schedule are equal by
  construction.
\<close>

theorem outputs_determined_by_stream:
  assumes "same_stream arr1 arr2"
  shows "(\<forall>f1. \<exists>f2.
            fst (uart_test_main f2 (boot arr2 r2)) = fst (uart_test_main f1 (boot arr1 r1)) \<and>
            echoed (snd (uart_test_main f2 (boot arr2 r2))) =
              echoed (snd (uart_test_main f1 (boot arr1 r1))) \<and>
            waveform (snd (uart_test_main f2 (boot arr2 r2))) =
              waveform (snd (uart_test_main f1 (boot arr1 r1)))) \<and>
         (\<forall>f2. \<exists>f1.
            fst (uart_test_main f1 (boot arr1 r1)) = fst (uart_test_main f2 (boot arr2 r2)) \<and>
            echoed (snd (uart_test_main f1 (boot arr1 r1))) =
              echoed (snd (uart_test_main f2 (boot arr2 r2))) \<and>
            waveform (snd (uart_test_main f1 (boot arr1 r1))) =
              waveform (snd (uart_test_main f2 (boot arr2 r2)))) \<and>
         (\<forall>g1. \<exists>g2.
            fst (bootloader_main g2 (boot arr2 ram0)) = fst (bootloader_main g1 (boot arr1 ram0)) \<and>
            buffer (snd (bootloader_main g2 (boot arr2 ram0))) =
              buffer (snd (bootloader_main g1 (boot arr1 ram0))) \<and>
            ram (snd (bootloader_main g2 (boot arr2 ram0))) =
              ram (snd (bootloader_main g1 (boot arr1 ram0))) \<and>
            stores (snd (bootloader_main g2 (boot arr2 ram0))) =
              stores (snd (bootloader_main g1 (boot arr1 ram0))) \<and>
            waveform (snd (bootloader_main g2 (boot arr2 ram0))) =
              waveform (snd (bootloader_main g1 (boot arr1 ram0)))) \<and>
         (\<forall>g2. \<exists>g1.
            fst (bootloader_main g1 (boot arr1 ram0)) = fst (bootloader_main g2 (boot arr2 ram0)) \<and>
            buffer (snd (bootloader_main g1 (boot arr1 ram0))) =
              buffer (snd (bootloader_main g2 (boot arr2 ram0))) \<and>
            ram (snd (bootloader_main g1 (boot arr1 ram0))) =
              ram (snd (bootloader_main g2 (boot arr2 ram0))) \<and>
            stores (snd (bootloader_main g1 (boot arr1 ram0))) =
              stores (snd (bootloader_main g2 (boot arr2 ram0))) \<and>
            waveform (snd (bootloader_main g1 (boot arr1 ram0))) =
              waveform (snd (bootloader_main g2 (boot arr2 ram0))))"
proof -
  have d: "\<exists>f'. fst (uart_test_main f' (boot b r')) = fst (uart_test_main f (boot a r)) \<and>
      echoed (snd (uart_test_main f' (boot b r'))) = echoed (snd (uart_test_main f (boot a r))) \<and>
      waveform (snd (uart_test_main f' (boot b r'))) =
        waveform (snd (uart_test_main f (boot a r)))"
    if "covers b a" for a b r r' f
  proof -
    obtain l w where run: "uart_test_main f (boot a r) = (l, w)"
      by (cases "uart_test_main f (boot a r)")
    from uart_test_simulated [OF that run, of r'] obtain f' w'
      where "uart_test_main f' (boot b r') = (l, w')" "echoed w' = echoed w"
        "waveform w' = waveform w"
      by blast
    with run have "fst (uart_test_main f' (boot b r')) = fst (uart_test_main f (boot a r)) \<and>
      echoed (snd (uart_test_main f' (boot b r'))) = echoed (snd (uart_test_main f (boot a r))) \<and>
      waveform (snd (uart_test_main f' (boot b r'))) =
        waveform (snd (uart_test_main f (boot a r)))"
      by simp
    then show ?thesis ..
  qed
  have l: "\<exists>g'. fst (bootloader_main g' (boot b ram0)) = fst (bootloader_main g (boot a ram0)) \<and>
      buffer (snd (bootloader_main g' (boot b ram0))) =
        buffer (snd (bootloader_main g (boot a ram0))) \<and>
      ram (snd (bootloader_main g' (boot b ram0))) = ram (snd (bootloader_main g (boot a ram0))) \<and>
      stores (snd (bootloader_main g' (boot b ram0))) =
        stores (snd (bootloader_main g (boot a ram0))) \<and>
      waveform (snd (bootloader_main g' (boot b ram0))) =
        waveform (snd (bootloader_main g (boot a ram0)))"
    if "covers b a" for a b g
  proof -
    obtain p v where run: "bootloader_main g (boot a ram0) = (p, v)"
      by (cases "bootloader_main g (boot a ram0)")
    from bootloader_simulated [OF that run] obtain g' v'
      where "bootloader_main g' (boot b ram0) = (p, v')" "buffer v' = buffer v"
        "ram v' = ram v" "stores v' = stores v" "waveform v' = waveform v"
      by blast
    with run have "fst (bootloader_main g' (boot b ram0)) = fst (bootloader_main g (boot a ram0)) \<and>
      buffer (snd (bootloader_main g' (boot b ram0))) =
        buffer (snd (bootloader_main g (boot a ram0))) \<and>
      ram (snd (bootloader_main g' (boot b ram0))) = ram (snd (bootloader_main g (boot a ram0))) \<and>
      stores (snd (bootloader_main g' (boot b ram0))) =
        stores (snd (bootloader_main g (boot a ram0))) \<and>
      waveform (snd (bootloader_main g' (boot b ram0))) =
        waveform (snd (bootloader_main g (boot a ram0)))"
      by simp
    then show ?thesis ..
  qed
  from assms have c: "covers arr2 arr1" "covers arr1 arr2"
    by (simp_all add: same_stream_def)
  from d [OF c(1)] d [OF c(2)] l [OF c(1)] l [OF c(2)] show ?thesis
    by blast
qed

theorem outputs_determined_by_stream_witness:
  "echoed (snd (uart_test_main 400 (boot sched_burst zero_ram))) = map word_of_nat [0..<300] \<and>
   (\<exists>f2. fst (uart_test_main f2 (boot sched_trickle zero_ram)) =
            fst (uart_test_main 400 (boot sched_burst zero_ram)) \<and>
          echoed (snd (uart_test_main f2 (boot sched_trickle zero_ram))) =
            echoed (snd (uart_test_main 400 (boot sched_burst zero_ram))) \<and>
          waveform (snd (uart_test_main f2 (boot sched_trickle zero_ram))) =
            waveform (snd (uart_test_main 400 (boot sched_burst zero_ram)))) \<and>
   fst (bootloader_main 300 (boot sched_burst zero_ram)) = Success \<and>
   (\<exists>g2. fst (bootloader_main g2 (boot sched_trickle zero_ram)) =
            fst (bootloader_main 300 (boot sched_burst zero_ram)) \<and>
          buffer (snd (bootloader_main g2 (boot sched_trickle zero_ram))) =
            buffer (snd (bootloader_main 300 (boot sched_burst zero_ram))) \<and>
          ram (snd (bootloader_main g2 (boot sched_trickle zero_ram))) =
            ram (snd (bootloader_main 300 (boot sched_burst zero_ram))) \<and>
          stores (snd (bootloader_main g2 (boot sched_trickle zero_ram))) =
            stores (snd (bootloader_main 300 (boot sched_burst zero_ram))) \<and>
          waveform (snd (bootloader_main g2 (boot sched_trickle zero_ram))) =
            waveform (snd (bootloader_main 300 (boot sched_burst zero_ram))))"
proof -
  obtain l w where d: "uart_test_main 400 (boot sched_burst zero_ram) = (l, w)"
    by (cases "uart_test_main 400 (boot sched_burst zero_ram)")
  have "consumed w = map word_of_nat [0..<300]"
    by (rule uart_test_echoes_all [OF sent_sched_burst_late _ d]) simp
  with uart_test_echoed [OF d] d
  have 1: "echoed (snd (uart_test_main 400 (boot sched_burst zero_ram))) =
      map word_of_nat [0..<300]"
    by simp
  from sched_burst_success
  have 2: "fst (bootloader_main 300 (boot sched_burst zero_ram)) = Success"
    by auto
  note t = outputs_determined_by_stream [OF same_stream_burst_trickle,
      of zero_ram zero_ram zero_ram]
  from t have 3: "\<exists>f2. fst (uart_test_main f2 (boot sched_trickle zero_ram)) =
            fst (uart_test_main 400 (boot sched_burst zero_ram)) \<and>
          echoed (snd (uart_test_main f2 (boot sched_trickle zero_ram))) =
            echoed (snd (uart_test_main 400 (boot sched_burst zero_ram))) \<and>
          waveform (snd (uart_test_main f2 (boot sched_trickle zero_ram))) =
            waveform (snd (uart_test_main 400 (boot sched_burst zero_ram)))"
    by blast
  from t have 4: "\<exists>g2. fst (bootloader_main g2 (boot sched_trickle zero_ram)) =
            fst (bootloader_main 300 (boot sched_burst zero_ram)) \<and>
          buffer (snd (bootloader_main g2 (boot sched_trickle zero_ram))) =
            buffer (snd (bootloader_main 300 (boot sched_burst zero_ram))) \<and>
          ram (snd (bootloader_main g2 (boot sched_trickle zero_ram))) =
            ram (snd (bootloader_main 300 (boot sched_burst zero_ram))) \<and>
          stores (snd (bootloader_main g2 (boot sched_trickle zero_ram))) =
            stores (snd (bootloader_main 300 (boot sched_burst zero_ram))) \<and>
          waveform (snd (bootloader_main g2 (boot sched_trickle zero_ram))) =
            waveform (snd (bootloader_main 300 (boot sched_burst zero_ram)))"
    by blast
  from 1 3 2 4 show ?thesis by blast
qed

end
